theory Spec2Isabelle
  imports Complex_Main "HOL-Library.Monad_Syntax"
begin

section \<open>JavaScript numbers\<close>

text \<open>
  A JavaScript \<^verbatim>\<open>number\<close> is modelled as a real number, one of the two infinities, or NaN;
  \<^verbatim>\<open>-0\<close> is identified with \<^verbatim>\<open>0\<close> (the two are equal under \<^verbatim>\<open>===\<close>). The finite
  doubles are the reals that the rounding function \<open>dbl\<close> below leaves unchanged. The
  comparison operators and \<^verbatim>\<open>Math.min\<close>/\<^verbatim>\<open>Math.max\<close> are exact on doubles. Arithmetic
  whose exact result need not be a double goes through the rounding operations
  \<open>dbl_add\<close>, \<open>dbl_sub\<close>, \<open>dbl_mul\<close> and \<open>dbl_div\<close>.
\<close>

datatype jsnum = NaN | NegInf | Fin real | PosInf

text \<open>\<^verbatim>\<open>a < b\<close>: false as soon as one side is NaN.\<close>

fun js_lt :: "jsnum \<Rightarrow> jsnum \<Rightarrow> bool" where
  "js_lt NaN _ = False"
| "js_lt _ NaN = False"
| "js_lt (Fin x) (Fin y) = (x < y)"
| "js_lt NegInf NegInf = False"
| "js_lt NegInf _ = True"
| "js_lt (Fin x) PosInf = True"
| "js_lt (Fin x) NegInf = False"
| "js_lt PosInf _ = False"

text \<open>\<^verbatim>\<open>a <= b\<close>, \<^verbatim>\<open>a > b\<close>, \<^verbatim>\<open>a >= b\<close>.\<close>

definition js_le :: "jsnum \<Rightarrow> jsnum \<Rightarrow> bool" where
  "js_le a b = (js_lt a b \<or> (a = b \<and> a \<noteq> NaN))"

definition js_gt :: "jsnum \<Rightarrow> jsnum \<Rightarrow> bool" where
  "js_gt a b = js_lt b a"

definition js_ge :: "jsnum \<Rightarrow> jsnum \<Rightarrow> bool" where
  "js_ge a b = js_le b a"

text \<open>\<^verbatim>\<open>Number.isFinite\<close>, and the truthiness of a number (\<^verbatim>\<open>NaN\<close> and \<^verbatim>\<open>0\<close> are falsy).\<close>

fun isFinite :: "jsnum \<Rightarrow> bool" where
  "isFinite (Fin x) = True"
| "isFinite _ = False"

definition truthy :: "jsnum \<Rightarrow> bool" where
  "truthy a = (a \<noteq> NaN \<and> a \<noteq> Fin 0)"

text \<open>\<^verbatim>\<open>a || b\<close> on numbers.\<close>

definition js_or :: "jsnum \<Rightarrow> jsnum \<Rightarrow> jsnum" where
  "js_or a b = (if truthy a then a else b)"

text \<open>\<^verbatim>\<open>Math.max(a, b)\<close> and \<^verbatim>\<open>Math.min(a, b)\<close>: NaN if either argument is NaN.\<close>

definition Math_max :: "jsnum \<Rightarrow> jsnum \<Rightarrow> jsnum" where
  "Math_max a b = (if a = NaN \<or> b = NaN then NaN else if js_lt a b then b else a)"

definition Math_min :: "jsnum \<Rightarrow> jsnum \<Rightarrow> jsnum" where
  "Math_min a b = (if a = NaN \<or> b = NaN then NaN else if js_lt b a then b else a)"

text \<open>
  Unary minus, and \<^verbatim>\<open>a + b\<close>, \<^verbatim>\<open>a - b\<close>, \<^verbatim>\<open>a * b\<close> without rounding of a finite
  result. The unrounded sum and difference are what the program computes where the
  outcome does not depend on rounding: the sign of \<^verbatim>\<open>a.t - b.t\<close> in the sort comparator
  (the rounded difference of two doubles has the sign of the exact one) and the
  sum of two array indices. They also give the rounding operations their results
  on infinite and NaN operands.
\<close>

fun js_neg :: "jsnum \<Rightarrow> jsnum" where
  "js_neg NaN = NaN"
| "js_neg NegInf = PosInf"
| "js_neg (Fin x) = Fin (- x)"
| "js_neg PosInf = NegInf"

fun js_add :: "jsnum \<Rightarrow> jsnum \<Rightarrow> jsnum" where
  "js_add NaN _ = NaN"
| "js_add _ NaN = NaN"
| "js_add (Fin x) (Fin y) = Fin (x + y)"
| "js_add PosInf NegInf = NaN"
| "js_add NegInf PosInf = NaN"
| "js_add PosInf _ = PosInf"
| "js_add NegInf _ = NegInf"
| "js_add (Fin x) b = b"

definition js_sub :: "jsnum \<Rightarrow> jsnum \<Rightarrow> jsnum" where
  "js_sub a b = js_add a (js_neg b)"

fun js_mul :: "jsnum \<Rightarrow> jsnum \<Rightarrow> jsnum" where
  "js_mul NaN _ = NaN"
| "js_mul _ NaN = NaN"
| "js_mul (Fin x) (Fin y) = Fin (x * y)"
| "js_mul (Fin x) b = (if x = 0 then NaN else if 0 < x then b else js_neg b)"
| "js_mul a (Fin y) = (if y = 0 then NaN else if 0 < y then a else js_neg a)"
| "js_mul PosInf b = b"
| "js_mul NegInf b = js_neg b"

text \<open>
  IEEE 754 binary64 rounding. \<open>rne\<close> rounds a real to the nearest integer, a tie to the
  even one. \<open>expo x\<close> is the exponent of the binade of \<open>x\<close>: the largest \<open>k\<close> with
  \<open>2\<^sup>k \<le> \<bar>x\<bar>\<close>, kept within \<open>-1022\<close> (the exponent shared by the subnormals) and
  \<open>1023\<close>; it is found by a search from the top. \<open>rd x\<close> is the multiple of
  \<open>2\<^bsup>expo x - 52\<^esup>\<close> nearest to \<open>x\<close>, and \<open>dbl x\<close> is the number that a correctly rounded
  operation returns when its exact result is \<open>x\<close>: an infinity once the rounded
  magnitude reaches \<open>2\<^sup>1\<^sup>0\<^sup>2\<^sup>4\<close>.
\<close>

definition rne :: "real \<Rightarrow> int" where
  "rne m =
     (let f = \<lfloor>m\<rfloor>
      in if m - of_int f < 1 / 2 then f
         else if 1 / 2 < m - of_int f then f + 1
         else if even f then f else f + 1)"

fun expo_search :: "nat \<Rightarrow> real \<Rightarrow> int" where
  "expo_search 0 x = - 1022"
| "expo_search (Suc n) x =
     (if 2 powi (int (Suc n) - 1022) \<le> \<bar>x\<bar> then int (Suc n) - 1022 else expo_search n x)"

definition expo :: "real \<Rightarrow> int" where
  "expo x = expo_search 2045 x"

definition rd :: "real \<Rightarrow> real" where
  "rd x = of_int (rne (x / 2 powi (expo x - 52))) * 2 powi (expo x - 52)"

definition dbl :: "real \<Rightarrow> jsnum" where
  "dbl x =
     (if 2 ^ 1024 \<le> rd x then PosInf
      else if rd x \<le> - (2 ^ 1024) then NegInf
      else Fin (rd x))"

text \<open>
  \<^verbatim>\<open>a + b\<close>, \<^verbatim>\<open>a - b\<close>, \<^verbatim>\<open>a * b\<close> and \<^verbatim>\<open>a / b\<close> on doubles: the exact result, rounded.
  A zero divisor is taken as \<^verbatim>\<open>+0\<close>; the program divides by the literal \<^verbatim>\<open>1000\<close> only.
\<close>

fun dbl_add :: "jsnum \<Rightarrow> jsnum \<Rightarrow> jsnum" where
  "dbl_add (Fin x) (Fin y) = dbl (x + y)"
| "dbl_add a b = js_add a b"

definition dbl_sub :: "jsnum \<Rightarrow> jsnum \<Rightarrow> jsnum" where
  "dbl_sub a b = dbl_add a (js_neg b)"

fun dbl_mul :: "jsnum \<Rightarrow> jsnum \<Rightarrow> jsnum" where
  "dbl_mul (Fin x) (Fin y) = dbl (x * y)"
| "dbl_mul a b = js_mul a b"

fun dbl_div :: "jsnum \<Rightarrow> jsnum \<Rightarrow> jsnum" where
  "dbl_div NaN _ = NaN"
| "dbl_div _ NaN = NaN"
| "dbl_div (Fin x) (Fin y) =
     (if y = 0 then (if x = 0 then NaN else if 0 < x then PosInf else NegInf)
      else dbl (x / y))"
| "dbl_div (Fin x) _ = Fin 0"
| "dbl_div PosInf (Fin y) = (if 0 \<le> y then PosInf else NegInf)"
| "dbl_div NegInf (Fin y) = (if 0 \<le> y then NegInf else PosInf)"
| "dbl_div _ _ = NaN"

text \<open>
  \<^verbatim>\<open>Math.exp\<close>. The language fixes its value at \<^verbatim>\<open>NaN\<close>, \<^verbatim>\<open>0\<close> and the infinities and
  leaves the other values to the implementation's approximation of the exponential;
  \<open>approx\<close> is that approximation, and its value is a double.
\<close>

fun Math_exp :: "(real \<Rightarrow> real) \<Rightarrow> jsnum \<Rightarrow> jsnum" where
  "Math_exp approx NaN = NaN"
| "Math_exp approx NegInf = Fin 0"
| "Math_exp approx (Fin x) = (if x = 0 then Fin 1 else dbl (approx x))"
| "Math_exp approx PosInf = PosInf"

text \<open>
  \<^verbatim>\<open>function clamp(value, min, max) { return Math.min(max, Math.max(min, value)); }\<close>
  (the same helper is declared in the player hook and in the visual-state module).
\<close>

definition clamp :: "jsnum \<Rightarrow> jsnum \<Rightarrow> jsnum \<Rightarrow> jsnum" where
  "clamp v lo hi = Math_min hi (Math_max lo v)"

definition clamp01 :: "jsnum \<Rightarrow> jsnum" where
  "clamp01 v = clamp v (Fin 0) (Fin 1)"

section \<open>Smoothing primitives\<close>

text \<open>
  \<^verbatim>\<open>damp(current, target, lambda, dt)\<close> of \<^verbatim>\<open>components/visual/damp.ts\<close> and
  \<^verbatim>\<open>smoothValue(current, target, speed, delta)\<close> of \<^verbatim>\<open>lib/smooth\<close>, each operation
  rounded. The first argument is the runtime's approximation of the exponential.
\<close>

definition damp :: "(real \<Rightarrow> real) \<Rightarrow> jsnum \<Rightarrow> jsnum \<Rightarrow> jsnum \<Rightarrow> jsnum \<Rightarrow> jsnum" where
  "damp approx current target lambda dt =
     (let tt = dbl_sub (Fin 1) (Math_exp approx (dbl_mul (js_neg lambda) dt))
      in dbl_add current (dbl_mul (dbl_sub target current) tt))"

definition smoothValue :: "(real \<Rightarrow> real) \<Rightarrow> jsnum \<Rightarrow> jsnum \<Rightarrow> jsnum \<Rightarrow> jsnum \<Rightarrow> jsnum" where
  "smoothValue approx current target speed delta =
     dbl_add current (dbl_mul (dbl_sub target current)
       (dbl_sub (Fin 1) (Math_exp approx (dbl_mul (js_neg speed) delta))))"

section \<open>Untyped payloads\<close>

text \<open>
  A value of TypeScript type \<^verbatim>\<open>unknown\<close>, as delivered by \<^verbatim>\<open>JSON.parse\<close> or built by
  the program: objects are association lists read with \<open>map_of\<close>, a missing key reads
  as \<^verbatim>\<open>undefined\<close>.
\<close>

datatype jsval =
    JUndefined
  | JNull
  | JBool bool
  | JNum jsnum
  | JStr string
  | JArr "jsval list"
  | JObj "(string \<times> jsval) list"

definition js_get :: "(string \<times> jsval) list \<Rightarrow> string \<Rightarrow> jsval" where
  "js_get kvs k = (case map_of kvs k of None \<Rightarrow> JUndefined | Some v \<Rightarrow> v)"

section \<open>The visual state and its schema\<close>

text \<open>The types of \<^verbatim>\<open>lib/visualState\<close>. An optional field that is absent is \<open>None\<close>.\<close>

type_synonym Vec3 = "jsnum \<times> jsnum \<times> jsnum"

datatype NodeShape = Sphere | Box | Ico | Dodeca

datatype LoopType = R_loop | B_loop

datatype FlowType = Line | Tube

record VisualNode =
  id :: string
  shape :: NodeShape
  pos :: Vec3
  color :: string
  intensity :: jsnum
  opacity :: jsnum
  scale :: "jsnum option"

record VisualLoop =
  id :: string
  type :: LoopType
  center :: Vec3
  radius :: jsnum
  intensity :: jsnum
  flowSpeed :: jsnum
  bottleneck :: "jsnum option"
  delay :: "jsnum option"

record VisualLever =
  id :: string
  target :: string
  pos :: Vec3
  strength :: jsnum

record VisualFlow =
  id :: string
  "from" :: string
  to :: string
  type :: FlowType
  speed :: jsnum
  intensity :: "jsnum option"
  color :: "string option"

record VisualField =
  chaos :: jsnum
  density :: jsnum
  noiseAmp :: jsnum

record VisualState =
  t :: "jsnum option"
  focus :: "string option"
  nodes :: "VisualNode list"
  loops :: "VisualLoop list"
  levers :: "VisualLever list"
  flows :: "VisualFlow list option"
  field :: "VisualField option"

text \<open>
  The schema library (zod) is not part of the repository. Its combinators are modelled
  as parsers into \<open>option\<close>, \<open>None\<close> being a failed parse. What \<^verbatim>\<open>z.number()\<close> accepts
  depends on the library's major version: version 3 accepts every value of type number
  but NaN, version 4 accepts finite numbers only. The parsers take the accepting
  predicate as their first argument.
\<close>

datatype zod_version = Zod3 | Zod4

fun z_number_accepts :: "zod_version \<Rightarrow> jsnum \<Rightarrow> bool" where
  "z_number_accepts Zod3 n = (n \<noteq> NaN)"
| "z_number_accepts Zod4 n = isFinite n"

definition z_number :: "(jsnum \<Rightarrow> bool) \<Rightarrow> jsval \<Rightarrow> jsnum option" where
  "z_number ok v = (case v of JNum n \<Rightarrow> (if ok n then Some n else None) | _ \<Rightarrow> None)"

definition z_string :: "jsval \<Rightarrow> string option" where
  "z_string v = (case v of JStr s \<Rightarrow> Some s | _ \<Rightarrow> None)"

text \<open>\<^verbatim>\<open>z.string().min(1)\<close>\<close>

definition z_string_min1 :: "jsval \<Rightarrow> string option" where
  "z_string_min1 v = (case v of JStr s \<Rightarrow> (if 1 \<le> length s then Some s else None) | _ \<Rightarrow> None)"

text \<open>\<^verbatim>\<open>.optional()\<close>: \<^verbatim>\<open>undefined\<close> (or a missing key) parses to an absent value.\<close>

definition z_optional :: "(jsval \<Rightarrow> 'a option) \<Rightarrow> jsval \<Rightarrow> 'a option option" where
  "z_optional p v = (case v of JUndefined \<Rightarrow> Some None | _ \<Rightarrow> map_option Some (p v))"

text \<open>\<^verbatim>\<open>z.array(p)\<close>\<close>

fun z_elements :: "(jsval \<Rightarrow> 'a option) \<Rightarrow> jsval list \<Rightarrow> 'a list option" where
  "z_elements p [] = Some []"
| "z_elements p (v # vs) = do { a \<leftarrow> p v; as \<leftarrow> z_elements p vs; Some (a # as) }"

definition z_array :: "(jsval \<Rightarrow> 'a option) \<Rightarrow> jsval \<Rightarrow> 'a list option" where
  "z_array p v = (case v of JArr vs \<Rightarrow> z_elements p vs | _ \<Rightarrow> None)"

text \<open>\<^verbatim>\<open>z.object({...})\<close> reads its keys from an object that is neither null nor an array.\<close>

definition z_object :: "jsval \<Rightarrow> (string \<times> jsval) list option" where
  "z_object v = (case v of JObj kvs \<Rightarrow> Some kvs | _ \<Rightarrow> None)"

text \<open>The three enumerations, and the strings they are written as.\<close>

definition z_enum_shape :: "jsval \<Rightarrow> NodeShape option" where
  "z_enum_shape v =
     (if v = JStr ''sphere'' then Some Sphere
      else if v = JStr ''box'' then Some Box
      else if v = JStr ''ico'' then Some Ico
      else if v = JStr ''dodeca'' then Some Dodeca
      else None)"

definition z_enum_loop :: "jsval \<Rightarrow> LoopType option" where
  "z_enum_loop v =
     (if v = JStr ''R'' then Some R_loop else if v = JStr ''B'' then Some B_loop else None)"

definition z_enum_flow :: "jsval \<Rightarrow> FlowType option" where
  "z_enum_flow v =
     (if v = JStr ''line'' then Some Line else if v = JStr ''tube'' then Some Tube else None)"

fun shape_name :: "NodeShape \<Rightarrow> string" where
  "shape_name Sphere = ''sphere''"
| "shape_name Box = ''box''"
| "shape_name Ico = ''ico''"
| "shape_name Dodeca = ''dodeca''"

fun loop_name :: "LoopType \<Rightarrow> string" where
  "loop_name R_loop = ''R''"
| "loop_name B_loop = ''B''"

fun flow_name :: "FlowType \<Rightarrow> string" where
  "flow_name Line = ''line''"
| "flow_name Tube = ''tube''"

text \<open>
  \<^verbatim>\<open>vec3Schema\<close>: a tuple of exactly three numbers; the transform \<^verbatim>\<open>Number(v[i])\<close> leaves
  a number as it is.
\<close>

definition vec3Schema :: "(jsnum \<Rightarrow> bool) \<Rightarrow> jsval \<Rightarrow> Vec3 option" where
  "vec3Schema ok v =
     (case v of
        JArr [a, b, c] \<Rightarrow> do { x \<leftarrow> z_number ok a; y \<leftarrow> z_number ok b; z \<leftarrow> z_number ok c; Some (x, y, z) }
      | _ \<Rightarrow> None)"

definition nodeSchema :: "(jsnum \<Rightarrow> bool) \<Rightarrow> jsval \<Rightarrow> VisualNode option" where
  "nodeSchema ok v = do {
     obj \<leftarrow> z_object v;
     i \<leftarrow> z_string_min1 (js_get obj ''id'');
     s \<leftarrow> z_enum_shape (js_get obj ''shape'');
     p \<leftarrow> vec3Schema ok (js_get obj ''pos'');
     c \<leftarrow> z_string (js_get obj ''color'');
     n \<leftarrow> z_number ok (js_get obj ''intensity'');
     a \<leftarrow> z_number ok (js_get obj ''opacity'');
     sc \<leftarrow> z_optional (z_number ok) (js_get obj ''scale'');
     Some \<lparr> VisualNode.id = i, shape = s, pos = p, color = c, intensity = n, opacity = a,
            scale = sc \<rparr> }"

definition loopSchema :: "(jsnum \<Rightarrow> bool) \<Rightarrow> jsval \<Rightarrow> VisualLoop option" where
  "loopSchema ok v = do {
     obj \<leftarrow> z_object v;
     i \<leftarrow> z_string_min1 (js_get obj ''id'');
     ty \<leftarrow> z_enum_loop (js_get obj ''type'');
     c \<leftarrow> vec3Schema ok (js_get obj ''center'');
     r \<leftarrow> z_number ok (js_get obj ''radius'');
     n \<leftarrow> z_number ok (js_get obj ''intensity'');
     fl \<leftarrow> z_number ok (js_get obj ''flowSpeed'');
     b \<leftarrow> z_optional (z_number ok) (js_get obj ''bottleneck'');
     d \<leftarrow> z_optional (z_number ok) (js_get obj ''delay'');
     Some \<lparr> VisualLoop.id = i, type = ty, center = c, radius = r, intensity = n, flowSpeed = fl,
            bottleneck = b, delay = d \<rparr> }"

definition leverSchema :: "(jsnum \<Rightarrow> bool) \<Rightarrow> jsval \<Rightarrow> VisualLever option" where
  "leverSchema ok v = do {
     obj \<leftarrow> z_object v;
     i \<leftarrow> z_string_min1 (js_get obj ''id'');
     tg \<leftarrow> z_string_min1 (js_get obj ''target'');
     p \<leftarrow> vec3Schema ok (js_get obj ''pos'');
     st \<leftarrow> z_number ok (js_get obj ''strength'');
     Some \<lparr> VisualLever.id = i, target = tg, pos = p, strength = st \<rparr> }"

definition flowSchema :: "(jsnum \<Rightarrow> bool) \<Rightarrow> jsval \<Rightarrow> VisualFlow option" where
  "flowSchema ok v = do {
     obj \<leftarrow> z_object v;
     i \<leftarrow> z_string_min1 (js_get obj ''id'');
     fr \<leftarrow> z_string_min1 (js_get obj ''from'');
     tt \<leftarrow> z_string_min1 (js_get obj ''to'');
     ty \<leftarrow> z_enum_flow (js_get obj ''type'');
     sp \<leftarrow> z_number ok (js_get obj ''speed'');
     n \<leftarrow> z_optional (z_number ok) (js_get obj ''intensity'');
     c \<leftarrow> z_optional z_string (js_get obj ''color'');
     Some \<lparr> VisualFlow.id = i, from = fr, to = tt, type = ty, speed = sp, intensity = n,
            color = c \<rparr> }"

definition fieldSchema :: "(jsnum \<Rightarrow> bool) \<Rightarrow> jsval \<Rightarrow> VisualField option" where
  "fieldSchema ok v = do {
     obj \<leftarrow> z_object v;
     c \<leftarrow> z_number ok (js_get obj ''chaos'');
     d \<leftarrow> z_number ok (js_get obj ''density'');
     n \<leftarrow> z_number ok (js_get obj ''noiseAmp'');
     Some \<lparr> chaos = c, density = d, noiseAmp = n \<rparr> }"

definition visualStateSchema :: "(jsnum \<Rightarrow> bool) \<Rightarrow> jsval \<Rightarrow> VisualState option" where
  "visualStateSchema ok v = do {
     obj \<leftarrow> z_object v;
     tv \<leftarrow> z_optional (z_number ok) (js_get obj ''t'');
     fo \<leftarrow> z_optional z_string (js_get obj ''focus'');
     ns \<leftarrow> z_array (nodeSchema ok) (js_get obj ''nodes'');
     ls \<leftarrow> z_array (loopSchema ok) (js_get obj ''loops'');
     lv \<leftarrow> z_array (leverSchema ok) (js_get obj ''levers'');
     fl \<leftarrow> z_optional (z_array (flowSchema ok)) (js_get obj ''flows'');
     fd \<leftarrow> z_optional (fieldSchema ok) (js_get obj ''field'');
     Some \<lparr> t = tv, focus = fo, nodes = ns, loops = ls, levers = lv, flows = fl, field = fd \<rparr> }"

text \<open>The normalizers. \<^verbatim>\<open>Number(x)\<close> leaves a number as it is.\<close>

fun clampVec3 :: "Vec3 \<Rightarrow> Vec3" where
  "clampVec3 (x, y, z) = (js_or x (Fin 0), js_or y (Fin 0), js_or z (Fin 0))"

definition normalizeNode :: "VisualNode \<Rightarrow> VisualNode" where
  "normalizeNode node = node\<lparr>
     VisualNode.pos := clampVec3 (VisualNode.pos node),
     VisualNode.intensity := clamp01 (VisualNode.intensity node),
     VisualNode.opacity := clamp01 (VisualNode.opacity node),
     VisualNode.scale :=
       (case VisualNode.scale node of None \<Rightarrow> None
        | Some sc \<Rightarrow> Some (clamp sc (Fin (1 / 10)) (Fin 5))) \<rparr>"

definition normalizeLoop :: "VisualLoop \<Rightarrow> VisualLoop" where
  "normalizeLoop loop = loop\<lparr>
     VisualLoop.center := clampVec3 (VisualLoop.center loop),
     VisualLoop.radius := Math_max (Fin (1 / 100)) (js_or (VisualLoop.radius loop) (Fin (1 / 100))),
     VisualLoop.intensity := clamp01 (VisualLoop.intensity loop),
     VisualLoop.flowSpeed := Math_max (Fin 0) (js_or (VisualLoop.flowSpeed loop) (Fin 0)),
     VisualLoop.bottleneck := map_option clamp01 (VisualLoop.bottleneck loop),
     VisualLoop.delay := map_option clamp01 (VisualLoop.delay loop) \<rparr>"

definition normalizeLever :: "VisualLever \<Rightarrow> VisualLever" where
  "normalizeLever lever = lever\<lparr>
     VisualLever.pos := clampVec3 (VisualLever.pos lever),
     VisualLever.strength := clamp01 (VisualLever.strength lever) \<rparr>"

definition normalizeFlow :: "VisualFlow \<Rightarrow> VisualFlow" where
  "normalizeFlow flow = flow\<lparr>
     VisualFlow.speed := Math_max (Fin 0) (js_or (VisualFlow.speed flow) (Fin 0)),
     VisualFlow.intensity := map_option clamp01 (VisualFlow.intensity flow) \<rparr>"

definition normalizeField :: "VisualField \<Rightarrow> VisualField" where
  "normalizeField fd =
     \<lparr> chaos = clamp01 (chaos fd), density = clamp01 (density fd), noiseAmp = clamp01 (noiseAmp fd) \<rparr>"

text \<open>The object \<^verbatim>\<open>parseVisualState\<close> builds from the parsed data.\<close>

definition normalizeState :: "VisualState \<Rightarrow> VisualState" where
  "normalizeState data =
     \<lparr> t = VisualState.t data,
       focus = focus data,
       nodes = map normalizeNode (nodes data),
       loops = map normalizeLoop (loops data),
       levers = map normalizeLever (levers data),
       flows = map_option (map normalizeFlow) (flows data),
       field = map_option normalizeField (field data) \<rparr>"

text \<open>
  \<^verbatim>\<open>parseVisualState(input)\<close>: \<open>Inl\<close> is \<^verbatim>\<open>{ ok: false, error }\<close> (the text of the message is
  the library's and is not modelled), \<open>Inr\<close> is \<^verbatim>\<open>{ ok: true, data }\<close>.
\<close>

datatype schema_error = SchemaError

definition parseVisualState :: "(jsnum \<Rightarrow> bool) \<Rightarrow> jsval \<Rightarrow> schema_error + VisualState" where
  "parseVisualState ok input =
     (case visualStateSchema ok input of
        None \<Rightarrow> Inl SchemaError
      | Some data \<Rightarrow> Inr (normalizeState data))"

text \<open>
  A typed visual state seen as an untyped value again (what the caller does when it
  passes validated data back to \<^verbatim>\<open>parseVisualState\<close>). An absent optional field is a key
  holding \<^verbatim>\<open>undefined\<close>.
\<close>

definition js_opt :: "('a \<Rightarrow> jsval) \<Rightarrow> 'a option \<Rightarrow> jsval" where
  "js_opt f v = (case v of None \<Rightarrow> JUndefined | Some a \<Rightarrow> f a)"

fun js_of_vec3 :: "Vec3 \<Rightarrow> jsval" where
  "js_of_vec3 (x, y, z) = JArr [JNum x, JNum y, JNum z]"

definition js_of_node :: "VisualNode \<Rightarrow> jsval" where
  "js_of_node n = JObj
     [(''id'', JStr (VisualNode.id n)), (''shape'', JStr (shape_name (shape n))),
      (''pos'', js_of_vec3 (VisualNode.pos n)), (''color'', JStr (VisualNode.color n)),
      (''intensity'', JNum (VisualNode.intensity n)), (''opacity'', JNum (opacity n)),
      (''scale'', js_opt JNum (scale n))]"

definition js_of_loop :: "VisualLoop \<Rightarrow> jsval" where
  "js_of_loop l = JObj
     [(''id'', JStr (VisualLoop.id l)), (''type'', JStr (loop_name (VisualLoop.type l))),
      (''center'', js_of_vec3 (center l)), (''radius'', JNum (radius l)),
      (''intensity'', JNum (VisualLoop.intensity l)), (''flowSpeed'', JNum (flowSpeed l)),
      (''bottleneck'', js_opt JNum (bottleneck l)), (''delay'', js_opt JNum (delay l))]"

definition js_of_lever :: "VisualLever \<Rightarrow> jsval" where
  "js_of_lever l = JObj
     [(''id'', JStr (VisualLever.id l)), (''target'', JStr (target l)),
      (''pos'', js_of_vec3 (VisualLever.pos l)), (''strength'', JNum (strength l))]"

definition js_of_flow :: "VisualFlow \<Rightarrow> jsval" where
  "js_of_flow f = JObj
     [(''id'', JStr (VisualFlow.id f)), (''from'', JStr (from f)), (''to'', JStr (to f)),
      (''type'', JStr (flow_name (VisualFlow.type f))), (''speed'', JNum (speed f)),
      (''intensity'', js_opt JNum (VisualFlow.intensity f)),
      (''color'', js_opt JStr (VisualFlow.color f))]"

definition js_of_field :: "VisualField \<Rightarrow> jsval" where
  "js_of_field f = JObj
     [(''chaos'', JNum (chaos f)), (''density'', JNum (density f)), (''noiseAmp'', JNum (noiseAmp f))]"

definition js_of_state :: "VisualState \<Rightarrow> jsval" where
  "js_of_state s = JObj
     [(''t'', js_opt JNum (VisualState.t s)), (''focus'', js_opt JStr (focus s)),
      (''nodes'', JArr (map js_of_node (nodes s))),
      (''loops'', JArr (map js_of_loop (loops s))),
      (''levers'', JArr (map js_of_lever (levers s))),
      (''flows'', js_opt (\<lambda>fs. JArr (map js_of_flow fs)) (flows s)),
      (''field'', js_opt js_of_field (field s))]"

text \<open>
  The number-valued fields of a visual state, its position and center vectors, and the
  conditions \<^verbatim>\<open>.min(1)\<close> puts on its identifiers.
\<close>

fun vec3_numbers :: "Vec3 \<Rightarrow> jsnum list" where
  "vec3_numbers (x, y, z) = [x, y, z]"

fun opt_numbers :: "jsnum option \<Rightarrow> jsnum list" where
  "opt_numbers None = []"
| "opt_numbers (Some n) = [n]"

definition node_numbers :: "VisualNode \<Rightarrow> jsnum list" where
  "node_numbers n =
     vec3_numbers (VisualNode.pos n) @ [VisualNode.intensity n, opacity n] @ opt_numbers (scale n)"

definition loop_numbers :: "VisualLoop \<Rightarrow> jsnum list" where
  "loop_numbers l =
     vec3_numbers (center l) @ [radius l, VisualLoop.intensity l, flowSpeed l]
     @ opt_numbers (bottleneck l) @ opt_numbers (delay l)"

definition lever_numbers :: "VisualLever \<Rightarrow> jsnum list" where
  "lever_numbers l = vec3_numbers (VisualLever.pos l) @ [strength l]"

definition flow_numbers :: "VisualFlow \<Rightarrow> jsnum list" where
  "flow_numbers f = speed f # opt_numbers (VisualFlow.intensity f)"

definition field_numbers :: "VisualField \<Rightarrow> jsnum list" where
  "field_numbers f = [chaos f, density f, noiseAmp f]"

definition state_numbers :: "VisualState \<Rightarrow> jsnum list" where
  "state_numbers s =
     opt_numbers (VisualState.t s)
     @ concat (map node_numbers (nodes s))
     @ concat (map loop_numbers (loops s))
     @ concat (map lever_numbers (levers s))
     @ (case flows s of None \<Rightarrow> [] | Some fs \<Rightarrow> concat (map flow_numbers fs))
     @ (case field s of None \<Rightarrow> [] | Some f \<Rightarrow> field_numbers f)"

definition state_vectors :: "VisualState \<Rightarrow> Vec3 list" where
  "state_vectors s =
     map VisualNode.pos (nodes s) @ map center (loops s) @ map VisualLever.pos (levers s)"

definition flow_ids_ok :: "VisualFlow \<Rightarrow> bool" where
  "flow_ids_ok f = (VisualFlow.id f \<noteq> [] \<and> from f \<noteq> [] \<and> to f \<noteq> [])"

definition ids_nonempty :: "VisualState \<Rightarrow> bool" where
  "ids_nonempty s =
     (list_all (\<lambda>n. VisualNode.id n \<noteq> []) (nodes s)
      \<and> list_all (\<lambda>l. VisualLoop.id l \<noteq> []) (loops s)
      \<and> list_all (\<lambda>l. VisualLever.id l \<noteq> [] \<and> target l \<noteq> []) (levers s)
      \<and> (case flows s of None \<Rightarrow> True | Some fs \<Rightarrow> list_all flow_ids_ok fs))"

section \<open>Replay frames and the sorted-frame derivation\<close>

text \<open>\<^verbatim>\<open>ReplayFrame\<close> of \<^verbatim>\<open>lib/api/replayApi\<close>.\<close>

record ReplayFrame =
  t :: jsnum
  input_text :: "string option"
  system_signals :: "(string \<times> jsval) list"
  system_state :: "jsval option"
  visual :: jsval
  meta :: "jsval option"

text \<open>
  \<^verbatim>\<open>Array.prototype.sort(comparefn)\<close>. ECMAScript requires the sort to be stable and
  reads a NaN result of the comparator as \<open>0\<close>; for a consistent comparator every
  conforming engine returns the list that a stable insertion sort returns. An element
  moves behind another only when the comparator is strictly positive.
\<close>

fun sort_insert :: "('a \<Rightarrow> 'a \<Rightarrow> jsnum) \<Rightarrow> 'a \<Rightarrow> 'a list \<Rightarrow> 'a list" where
  "sort_insert cmp x [] = [x]"
| "sort_insert cmp x (y # ys) =
     (if js_gt (cmp x y) (Fin 0) then y # sort_insert cmp x ys else x # y # ys)"

definition js_sort :: "('a \<Rightarrow> 'a \<Rightarrow> jsnum) \<Rightarrow> 'a list \<Rightarrow> 'a list" where
  "js_sort cmp xs = foldr (sort_insert cmp) xs []"

text \<open>The comparator \<^verbatim>\<open>(a, b) => a.t - b.t\<close> used by both hooks.\<close>

definition by_t :: "ReplayFrame \<Rightarrow> ReplayFrame \<Rightarrow> jsnum" where
  "by_t a b = js_sub (t a) (t b)"

text \<open>
  \<^verbatim>\<open>const sortedFrames = useMemo(() => frames ? [...frames].sort((a, b) => a.t - b.t) : [], [frames])\<close>
\<close>

definition sortedFrames :: "ReplayFrame list option \<Rightarrow> ReplayFrame list" where
  "sortedFrames fs0 = (case fs0 of None \<Rightarrow> [] | Some fs \<Rightarrow> js_sort by_t fs)"

text \<open>
  \<^verbatim>\<open>findFrameIndex(frames, t)\<close>: the loop runs over the frames in order, remembers the
  index of the last frame accepted and stops at the first frame whose time is not
  \<^verbatim>\<open><=\<close> the query.
\<close>

fun findFrameIndex_loop :: "ReplayFrame list \<Rightarrow> jsnum \<Rightarrow> nat \<Rightarrow> nat \<Rightarrow> nat" where
  "findFrameIndex_loop [] q i bestIndex = bestIndex"
| "findFrameIndex_loop (f # fs) q i bestIndex =
     (if js_le (t f) q then findFrameIndex_loop fs q (i + 1) i else bestIndex)"

definition findFrameIndex :: "ReplayFrame list \<Rightarrow> jsnum \<Rightarrow> nat" where
  "findFrameIndex fs q = (if length fs = 0 then 0 else findFrameIndex_loop fs q 0 0)"

text \<open>Frames ascending by \<^verbatim>\<open>t\<close>.\<close>

definition ascending :: "ReplayFrame list \<Rightarrow> bool" where
  "ascending fs = sorted_wrt (\<lambda>a b. js_le (t a) (t b)) fs"


section \<open>The episode read API\<close>

text \<open>
  \<^verbatim>\<open>ReplayEpisode\<close>. A \<^verbatim>\<open>title\<close> that is \<^verbatim>\<open>null\<close> or \<^verbatim>\<open>undefined\<close> is \<open>None\<close>.
\<close>

record ReplayEpisode =
  episode_id :: string
  created_at :: string
  updated_at :: string
  title :: "string option"
  frames :: "ReplayFrame list"
  duration :: jsnum
  version :: string

text \<open>The assertion helpers throw an \<^verbatim>\<open>Error\<close>; its message is the \<open>Inl\<close> value.\<close>

definition assertObject :: "jsval \<Rightarrow> string \<Rightarrow> string + (string \<times> jsval) list" where
  "assertObject v name =
     (case v of JObj kvs \<Rightarrow> Inr kvs
      | _ \<Rightarrow> Inl (''Invalid '' @ name @ '': expected object''))"

definition assertString :: "jsval \<Rightarrow> string \<Rightarrow> string + string" where
  "assertString v name =
     (case v of JStr s \<Rightarrow> Inr s
      | _ \<Rightarrow> Inl (''Invalid '' @ name @ '': expected string''))"

definition assertNumber :: "jsval \<Rightarrow> string \<Rightarrow> string + jsnum" where
  "assertNumber v name =
     (case v of
        JNum n \<Rightarrow> (if n = NaN then Inl (''Invalid '' @ name @ '': expected number'') else Inr n)
      | _ \<Rightarrow> Inl (''Invalid '' @ name @ '': expected number''))"

text \<open>\<^verbatim>\<open>typeof v === "object" && v !== null\<close> (arrays are objects).\<close>

fun is_object :: "jsval \<Rightarrow> bool" where
  "is_object (JObj kvs) = True"
| "is_object (JArr xs) = True"
| "is_object _ = False"

text \<open>
  \<^verbatim>\<open>validateReplayFrame\<close>. The \<^verbatim>\<open>system_signals\<close> record is cast, not checked, so its
  values stay untyped. An \<^verbatim>\<open>input_text\<close> that is not a string becomes \<^verbatim>\<open>null\<close> or
  \<^verbatim>\<open>undefined\<close>, both \<open>None\<close>.
\<close>

definition validateReplayFrame :: "jsval \<Rightarrow> string + ReplayFrame" where
  "validateReplayFrame v =
     (case assertObject v ''replay frame'' of
        Inl e \<Rightarrow> Inl e
      | Inr obj \<Rightarrow>
         (case js_get obj ''system_signals'' of
            JObj systemSignals \<Rightarrow>
              (case assertNumber (js_get obj ''t'') ''t'' of
                 Inl e \<Rightarrow> Inl e
               | Inr tv \<Rightarrow> Inr \<lparr>
                   t = tv,
                   input_text = (case js_get obj ''input_text'' of JStr s \<Rightarrow> Some s | _ \<Rightarrow> None),
                   system_signals = systemSignals,
                   system_state =
                     (if is_object (js_get obj ''system_state'')
                      then Some (js_get obj ''system_state'') else None),
                   visual =
                     (if is_object (js_get obj ''visual'') then js_get obj ''visual'' else JObj []),
                   meta = (if is_object (js_get obj ''meta'') then Some (js_get obj ''meta'') else None)
                 \<rparr>)
          | _ \<Rightarrow> Inl ''Invalid system_signals: expected object''))"

text \<open>\<^verbatim>\<open>obj.frames.map(validateReplayFrame)\<close>: the first frame that throws aborts the map.\<close>

fun validate_frames :: "jsval list \<Rightarrow> string + ReplayFrame list" where
  "validate_frames [] = Inr []"
| "validate_frames (v # vs) =
     (case validateReplayFrame v of
        Inl e \<Rightarrow> Inl e
      | Inr f \<Rightarrow> (case validate_frames vs of Inl e \<Rightarrow> Inl e | Inr fs \<Rightarrow> Inr (f # fs)))"

text \<open>\<^verbatim>\<open>validateEpisode\<close>: the frames are checked first, then the fields in record order.\<close>

definition validateEpisode :: "jsval \<Rightarrow> string + ReplayEpisode" where
  "validateEpisode v =
     (case assertObject v ''replay episode'' of
        Inl e \<Rightarrow> Inl e
      | Inr obj \<Rightarrow>
     (case (case js_get obj ''frames'' of JArr vs \<Rightarrow> validate_frames vs | _ \<Rightarrow> Inr []) of
        Inl e \<Rightarrow> Inl e
      | Inr fs \<Rightarrow>
     (case assertString (js_get obj ''episode_id'') ''episode_id'' of
        Inl e \<Rightarrow> Inl e
      | Inr eid \<Rightarrow>
     (case assertString (js_get obj ''created_at'') ''created_at'' of
        Inl e \<Rightarrow> Inl e
      | Inr cat \<Rightarrow>
     (case assertString (js_get obj ''updated_at'') ''updated_at'' of
        Inl e \<Rightarrow> Inl e
      | Inr uat \<Rightarrow>
     (case assertNumber (js_get obj ''duration'') ''duration'' of
        Inl e \<Rightarrow> Inl e
      | Inr d \<Rightarrow>
     (case assertString (js_get obj ''version'') ''version'' of
        Inl e \<Rightarrow> Inl e
      | Inr ver \<Rightarrow> Inr \<lparr>
          episode_id = eid, created_at = cat, updated_at = uat,
          title = (case js_get obj ''title'' of JStr s \<Rightarrow> Some s | _ \<Rightarrow> None),
          frames = fs, duration = d, version = ver \<rparr>)))))))"

text \<open>
  \<^verbatim>\<open>getEpisode\<close>: \<^verbatim>\<open>fetchJson\<close> either throws (a message) or delivers the parsed body, which
  \<^verbatim>\<open>validateEpisode\<close> checks. The outcome of the HTTP request is the argument.
\<close>

definition getEpisode :: "string + jsval \<Rightarrow> string + ReplayEpisode" where
  "getEpisode response = (case response of Inl e \<Rightarrow> Inl e | Inr body \<Rightarrow> validateEpisode body)"

section \<open>The episode session (\<^verbatim>\<open>useReplayEpisode\<close>)\<close>

text \<open>
  The hook's state, together with the requests that are in flight: each call of
  \<^verbatim>\<open>load\<close> that has reached \<^verbatim>\<open>await getEpisode(episodeId)\<close> and not yet resumed is
  recorded with the episode id it asked for.
\<close>

record Session =
  episodeId :: "string option"
  loading :: bool
  error :: "string option"
  episode :: "ReplayEpisode option"
  inflight :: "string list"

definition useReplayEpisode :: Session where
  "useReplayEpisode = \<lparr> episodeId = None, loading = False, error = None, episode = None, inflight = [] \<rparr>"

text \<open>
  The \<^verbatim>\<open>try\<close> block after the \<^verbatim>\<open>await\<close>: sort the frames, take the last frame's time
  (\<^verbatim>\<open>frames[frames.length - 1]?.t ?? 0\<close>), reconcile the duration, store the episode.
\<close>

definition reconcile :: "ReplayEpisode \<Rightarrow> ReplayEpisode" where
  "reconcile data =
     (let fs = js_sort by_t (ReplayEpisode.frames data);
          lastT = (if fs = [] then Fin 0 else t (last fs));
          d = (if isFinite (ReplayEpisode.duration data) \<and> js_gt (ReplayEpisode.duration data) (Fin 0)
               then ReplayEpisode.duration data else lastT)
      in data\<lparr> ReplayEpisode.frames := fs,
               ReplayEpisode.duration := (if js_gt d (Fin 0) then d else Fin 0) \<rparr>)"

text \<open>
  The part of \<^verbatim>\<open>load\<close> before the \<^verbatim>\<open>await\<close>. \<^verbatim>\<open>if (!episodeId) return\<close> leaves when
  the id is \<^verbatim>\<open>null\<close> or the empty string.
\<close>

definition load_start :: "Session \<Rightarrow> Session" where
  "load_start s =
     (case episodeId s of
        None \<Rightarrow> s
      | Some eid \<Rightarrow>
          if eid = [] then s
          else s\<lparr> loading := True, error := None, inflight := inflight s @ [eid] \<rparr>)"

text \<open>
  The part of \<^verbatim>\<open>load\<close> after the \<^verbatim>\<open>await\<close>, run when a request settles with the given
  result: \<^verbatim>\<open>try\<close> body or \<^verbatim>\<open>catch\<close> body, then \<^verbatim>\<open>finally\<close>. Nothing in it looks at the
  episode id the hook holds by then.
\<close>

definition load_settle :: "string + ReplayEpisode \<Rightarrow> Session \<Rightarrow> Session" where
  "load_settle result s =
     (case result of
        Inr data \<Rightarrow> s\<lparr> episode := Some (reconcile data), loading := False \<rparr>
      | Inl msg \<Rightarrow> s\<lparr> episode := None, error := Some msg, loading := False \<rparr>)"

text \<open>
  The effect that runs when the episode id has changed: it clears the state for an id
  that is \<^verbatim>\<open>null\<close> or empty and calls \<^verbatim>\<open>load\<close> otherwise.
\<close>

definition episode_effect :: "Session \<Rightarrow> Session" where
  "episode_effect s =
     (if episodeId s = None \<or> episodeId s = Some []
      then s\<lparr> episode := None, error := None, loading := False \<rparr>
      else load_start s)"

text \<open>
  Events of one session: the caller switches the episode id, the caller invokes
  \<^verbatim>\<open>reload\<close>, or the \<open>n\<close>-th request in flight settles. The store answers a request for
  an id with \<open>store id\<close>. Every error \<^verbatim>\<open>getEpisode\<close> throws carries a message, so the
  fallback text of \<^verbatim>\<open>err?.message ?? "..."\<close> is never used.
\<close>

datatype session_event = SetEpisodeId "string option" | Reload | Settle nat

fun session_step :: "(string \<Rightarrow> string + jsval) \<Rightarrow> Session \<Rightarrow> session_event \<Rightarrow> Session" where
  "session_step store s (SetEpisodeId eid) =
     (if episodeId s = eid then s else episode_effect (s\<lparr> episodeId := eid \<rparr>))"
| "session_step store s Reload = load_start s"
| "session_step store s (Settle n) =
     (if n < length (inflight s)
      then load_settle (getEpisode (store (inflight s ! n)))
             (s\<lparr> inflight := take n (inflight s) @ drop (Suc n) (inflight s) \<rparr>)
      else s)"

definition session_run :: "(string \<Rightarrow> string + jsval) \<Rightarrow> session_event list \<Rightarrow> Session" where
  "session_run store evs = foldl (session_step store) useReplayEpisode evs"

section \<open>The playback clock (\<^verbatim>\<open>useReplayPlayer\<close>)\<close>

text \<open>\<^verbatim>\<open>type SpeedOption = 0.5 | 1 | 2 | 4\<close>\<close>

datatype SpeedOption = Half | One | Two | Four

fun speed_value :: "SpeedOption \<Rightarrow> real" where
  "speed_value Half = 1 / 2"
| "speed_value One = 1"
| "speed_value Two = 2"
| "speed_value Four = 4"

text \<open>
  The time stamp that \<^verbatim>\<open>requestAnimationFrame\<close> passes to its callback: a finite double,
  not negative, in milliseconds.
\<close>

typedef timestamp = "{x :: real. 0 \<le> x \<and> dbl x = Fin x}"
  morphisms ms stamp
  by (rule exI[of _ 0]) (simp add: dbl_def rd_def rne_def)

text \<open>
  The hook instance: its two arguments and its state. \<open>lastTick\<close> is the ref holding the
  time stamp of the previous animation frame.
\<close>

record Player =
  frames :: "ReplayFrame list option"
  duration :: jsnum
  isPlaying :: bool
  speed :: SpeedOption
  currentTime :: jsnum
  currentIndex :: jsnum
  lastTick :: "timestamp option"

definition useReplayPlayer :: "ReplayFrame list option \<Rightarrow> jsnum \<Rightarrow> Player" where
  "useReplayPlayer fs d =
     \<lparr> frames = fs, duration = d, isPlaying = False, speed = One,
       currentTime = Fin 0, currentIndex = Fin 0, lastTick = None \<rparr>"

text \<open>
  \<^verbatim>\<open>xs[n]\<close> for a number \<open>n\<close>: an element when \<open>n\<close> is an integer within the bounds,
  \<^verbatim>\<open>undefined\<close> otherwise.
\<close>

definition js_index :: "'a list \<Rightarrow> jsnum \<Rightarrow> 'a option" where
  "js_index xs n =
     (case n of
        Fin r \<Rightarrow> (if 0 \<le> r \<and> r < real (length xs) \<and> r = of_int \<lfloor>r\<rfloor>
                  then Some (xs ! nat \<lfloor>r\<rfloor>) else None)
      | _ \<Rightarrow> None)"

text \<open>
  A render with new arguments. The reset effect depends on \<^verbatim>\<open>[duration, sortedFrames.length]\<close>
  and runs when one of the two has changed.
\<close>

definition rerender :: "ReplayFrame list option \<Rightarrow> jsnum \<Rightarrow> Player \<Rightarrow> Player" where
  "rerender fs d s =
     (if d \<noteq> Player.duration s
         \<or> length (sortedFrames fs) \<noteq> length (sortedFrames (Player.frames s))
      then s\<lparr> Player.frames := fs, Player.duration := d, currentTime := Fin 0,
              currentIndex := Fin 0, isPlaying := False, lastTick := None \<rparr>
      else s\<lparr> Player.frames := fs, Player.duration := d \<rparr>)"

definition currentFrame :: "Player \<Rightarrow> ReplayFrame option" where
  "currentFrame s = js_index (sortedFrames (Player.frames s)) (currentIndex s)"

text \<open>
  The transport callbacks. \<^verbatim>\<open>play\<close> is \<^verbatim>\<open>() => setIsPlaying(true)\<close>. When the clock is
  not playing, the tick effect stores \<^verbatim>\<open>null\<close> in \<open>lastTick\<close>.
\<close>

definition play :: "Player \<Rightarrow> Player" where
  "play s = s\<lparr> isPlaying := True \<rparr>"

definition pause :: "Player \<Rightarrow> Player" where
  "pause s = s\<lparr> isPlaying := False, lastTick := None \<rparr>"

definition togglePlay :: "Player \<Rightarrow> Player" where
  "togglePlay s = (if isPlaying s then pause s else play s)"


definition scrub :: "jsnum \<Rightarrow> Player \<Rightarrow> Player" where
  "scrub q s =
     (let clamped = clamp q (Fin 0) (Player.duration s)
      in s\<lparr> currentTime := clamped,
             currentIndex := Fin (real (findFrameIndex (sortedFrames (Player.frames s)) clamped)) \<rparr>)"

definition step :: "jsnum \<Rightarrow> Player \<Rightarrow> Player" where
  "step deltaFrames s =
     (let sorted = sortedFrames (Player.frames s);
          nextIndex = clamp (js_add (currentIndex s) deltaFrames) (Fin 0)
                        (Fin (real (length sorted) - 1));
          nextTime = (case js_index sorted nextIndex of None \<Rightarrow> Fin 0 | Some f \<Rightarrow> t f)
      in s\<lparr> currentIndex := nextIndex, currentTime := nextTime \<rparr>)"

text \<open>
  One animation frame at time stamp \<open>now\<close> (milliseconds). The callback is scheduled only
  while the clock is playing. \<^verbatim>\<open>if (!lastTick.current) lastTick.current = now\<close> takes the
  new baseline when the ref is \<^verbatim>\<open>null\<close> or \<open>0\<close>. The subtraction, the division, the
  product with the speed and the sum \<^verbatim>\<open>prev + delta * speed\<close> are each rounded.
\<close>

definition tick :: "timestamp \<Rightarrow> Player \<Rightarrow> Player" where
  "tick now s =
     (if \<not> isPlaying s then s
      else
        let base = (case lastTick s of None \<Rightarrow> now | Some l \<Rightarrow> if ms l = 0 then now else l);
            delta = dbl_div (dbl_sub (Fin (ms now)) (Fin (ms base))) (Fin 1000);
            next = clamp (dbl_add (currentTime s) (dbl_mul delta (Fin (speed_value (speed s)))))
                     (Fin 0) (Player.duration s);
            nextIndex = findFrameIndex (sortedFrames (Player.frames s)) next;
            stop = js_ge next (Player.duration s)
        in s\<lparr> currentTime := next,
               currentIndex := Fin (real nextIndex),
               isPlaying := \<not> stop,
               lastTick := (if stop then None else Some now) \<rparr>)"

text \<open>The animation frames at the given time stamps, in order.\<close>

fun ticks :: "timestamp list \<Rightarrow> Player \<Rightarrow> Player" where
  "ticks [] s = s"
| "ticks (now # rest) s = ticks rest (tick now s)"

section \<open>Sample data\<close>

text \<open>A frame at time \<open>x\<close> with no payload, and one tagged by its input text.\<close>

definition fr :: "real \<Rightarrow> ReplayFrame" where
  "fr x = \<lparr> t = Fin x, input_text = None, system_signals = [], system_state = None,
            visual = JObj [], meta = None \<rparr>"

definition fr_tagged :: "real \<Rightarrow> string \<Rightarrow> ReplayFrame" where
  "fr_tagged x tag = (fr x)\<lparr> input_text := Some tag \<rparr>"


text \<open>An episode record, a response body that passes \<open>validateEpisode\<close>, and a store that
  answers every id with such a body.\<close>

definition sample_episode :: "string \<Rightarrow> jsnum \<Rightarrow> ReplayFrame list \<Rightarrow> ReplayEpisode" where
  "sample_episode eid d fs =
     \<lparr> episode_id = eid, created_at = ''2024-01-01'', updated_at = ''2024-01-02'', title = None,
       frames = fs, duration = d, version = ''1'' \<rparr>"

definition sample_body :: "string \<Rightarrow> jsval" where
  "sample_body eid =
     JObj [(''episode_id'', JStr eid), (''created_at'', JStr ''2024-01-01''),
           (''updated_at'', JStr ''2024-01-02''), (''frames'', JArr []),
           (''duration'', JNum (Fin 0)), (''version'', JStr ''1'')]"

definition sample_store :: "string \<Rightarrow> string + jsval" where
  "sample_store eid = Inr (sample_body eid)"

text \<open>
  A payload with one node, as an untyped value and as the typed state the schema reads
  from it; the node's first coordinate and its intensity are the arguments.
\<close>

definition sample_node_js :: "jsnum \<Rightarrow> jsnum \<Rightarrow> jsval" where
  "sample_node_js x i = JObj
     [(''id'', JStr ''n1''), (''shape'', JStr ''sphere''),
      (''pos'', JArr [JNum x, JNum (Fin 2), JNum (Fin 3)]), (''color'', JStr ''#fff''),
      (''intensity'', JNum i), (''opacity'', JNum (Fin 1))]"

definition sample_payload :: "jsnum \<Rightarrow> jsnum \<Rightarrow> jsval" where
  "sample_payload x i =
     JObj [(''nodes'', JArr [sample_node_js x i]), (''loops'', JArr []), (''levers'', JArr [])]"

definition sample_node :: "jsnum \<Rightarrow> jsnum \<Rightarrow> VisualNode" where
  "sample_node x i =
     \<lparr> VisualNode.id = ''n1'', shape = Sphere, pos = (x, Fin 2, Fin 3), color = ''#fff'',
       intensity = i, opacity = Fin 1, scale = None \<rparr>"

definition sample_state :: "jsnum \<Rightarrow> jsnum \<Rightarrow> VisualState" where
  "sample_state x i =
     \<lparr> VisualState.t = None, focus = None, nodes = [sample_node x i], loops = [], levers = [],
       flows = None, field = None \<rparr>"

section \<open>Properties of the rounding\<close>

lemma rne_of_int [simp]: "rne (of_int k) = k"
  by (simp add: rne_def)

lemma rne_cases:
  obtains (down) "m - of_int \<lfloor>m\<rfloor> \<le> 1 / 2" "rne m = \<lfloor>m\<rfloor>"
        | (up) "1 / 2 \<le> m - of_int \<lfloor>m\<rfloor>" "rne m = \<lfloor>m\<rfloor> + 1"
proof (cases "m - of_int \<lfloor>m\<rfloor> < 1 / 2")
  case True
  then have "rne m = \<lfloor>m\<rfloor>" by (simp add: rne_def Let_def)
  then show ?thesis using True down by simp
next
  case False
  note nf = this
  show ?thesis
  proof (cases "1 / 2 < m - of_int \<lfloor>m\<rfloor>")
    case True
    then have "rne m = \<lfloor>m\<rfloor> + 1" using nf by (simp add: rne_def Let_def)
    then show ?thesis using True up by simp
  next
    case False
    then have eq: "m - of_int \<lfloor>m\<rfloor> = 1 / 2" using nf by linarith
    show ?thesis
    proof (cases "even \<lfloor>m\<rfloor>")
      case True
      then have "rne m = \<lfloor>m\<rfloor>" using eq by (simp add: rne_def Let_def)
      then show ?thesis using eq down by simp
    next
      case False
      then have "rne m = \<lfloor>m\<rfloor> + 1" using eq by (simp add: rne_def Let_def)
      then show ?thesis using eq up by simp
    qed
  qed
qed

lemma floor_facts: "of_int \<lfloor>m\<rfloor> \<le> m" "m < of_int \<lfloor>m\<rfloor> + (1::real)"
  by linarith+

lemma rne_lower: "of_int (rne m) - 1 / 2 \<le> m"
proof (cases m rule: rne_cases)
  case down
  have "real_of_int (rne m) = of_int \<lfloor>m\<rfloor>" using down(2) by simp
  then show ?thesis using floor_facts[of m] by linarith
next
  case up
  have "real_of_int (rne m) = of_int \<lfloor>m\<rfloor> + 1" using up(2) by simp
  then show ?thesis using up(1) by linarith
qed

lemma rne_upper: "m \<le> of_int (rne m) + 1 / 2"
proof (cases m rule: rne_cases)
  case down
  have "real_of_int (rne m) = of_int \<lfloor>m\<rfloor>" using down(2) by simp
  then show ?thesis using down(1) by linarith
next
  case up
  have "real_of_int (rne m) = of_int \<lfloor>m\<rfloor> + 1" using up(2) by simp
  then show ?thesis using floor_facts[of m] by linarith
qed

lemma rne_mono:
  assumes "a \<le> b"
  shows "rne a \<le> rne b"
proof (cases "\<lfloor>a\<rfloor> = \<lfloor>b\<rfloor>")
  case True
  show ?thesis
  proof (cases a rule: rne_cases)
    case down
    then show ?thesis
    proof (cases b rule: rne_cases)
      case down
      then show ?thesis using \<open>rne a = \<lfloor>a\<rfloor>\<close> True by simp
    next
      case up
      then show ?thesis using \<open>rne a = \<lfloor>a\<rfloor>\<close> True by simp
    qed
  next
    case up
    note ua = this
    have half: "b - of_int \<lfloor>b\<rfloor> \<ge> 1 / 2" using ua(1) assms True by simp
    show ?thesis
    proof (cases "b - of_int \<lfloor>b\<rfloor> = 1 / 2")
      case False
      then have "1 / 2 < b - of_int \<lfloor>b\<rfloor>" using half by linarith
      then have "rne b = \<lfloor>b\<rfloor> + 1" by (simp add: rne_def Let_def)
      then show ?thesis using ua(2) True by simp
    next
      case eqb: True
      then have "a - of_int \<lfloor>a\<rfloor> = 1 / 2" using ua(1) assms True by simp
      then have "a = b" using eqb True by simp
      then show ?thesis by simp
    qed
  qed
next
  case False
  then have "\<lfloor>a\<rfloor> < \<lfloor>b\<rfloor>" using assms floor_mono[of a b] by linarith
  then have "\<lfloor>a\<rfloor> + 1 \<le> \<lfloor>b\<rfloor>" by simp
  moreover have "rne a \<le> \<lfloor>a\<rfloor> + 1" by (cases a rule: rne_cases) simp_all
  moreover have "\<lfloor>b\<rfloor> \<le> rne b" by (cases b rule: rne_cases) simp_all
  ultimately show ?thesis by linarith
qed

lemma rne_minus: "rne (- m) = - rne m"
proof (cases "m = of_int \<lfloor>m\<rfloor>")
  case True
  then have "rne m = \<lfloor>m\<rfloor>" using rne_of_int[of "\<lfloor>m\<rfloor>"] by simp
  moreover have "rne (- m) = - \<lfloor>m\<rfloor>" using True rne_of_int[of "- \<lfloor>m\<rfloor>"] by simp
  ultimately show ?thesis by simp
next
  case False
  then have lt: "of_int \<lfloor>m\<rfloor> < m" using floor_facts(1)[of m] by linarith
  have fl: "\<lfloor>- m\<rfloor> = - \<lfloor>m\<rfloor> - 1"
  proof (rule floor_unique)
    have c: "real_of_int (- \<lfloor>m\<rfloor> - 1) = - real_of_int \<lfloor>m\<rfloor> - 1" by simp
    have u: "m < real_of_int \<lfloor>m\<rfloor> + 1" by linarith
    show "of_int (- \<lfloor>m\<rfloor> - 1) \<le> - m" using c u by linarith
    show "- m < of_int (- \<lfloor>m\<rfloor> - 1) + 1" using c lt by linarith
  qed
  let ?d = "m - of_int \<lfloor>m\<rfloor>"
  have d: "- m - of_int \<lfloor>- m\<rfloor> = 1 - ?d" unfolding fl by simp
  have ev: "even (- \<lfloor>m\<rfloor> - 1) \<longleftrightarrow> odd \<lfloor>m\<rfloor>" by simp
  consider "?d < 1 / 2" | "1 / 2 < ?d" | "?d = 1 / 2" by linarith
  then show ?thesis
  proof cases
    case 1
    then have "rne m = \<lfloor>m\<rfloor>" by (simp add: rne_def Let_def)
    moreover have "rne (- m) = \<lfloor>- m\<rfloor> + 1" using 1 d by (simp add: rne_def Let_def)
    ultimately show ?thesis using fl by simp
  next
    case 2
    then have "rne m = \<lfloor>m\<rfloor> + 1" by (simp add: rne_def Let_def)
    moreover have "rne (- m) = \<lfloor>- m\<rfloor>" using 2 d by (simp add: rne_def Let_def)
    ultimately show ?thesis using fl by simp
  next
    case 3
    then have d': "- m - of_int \<lfloor>- m\<rfloor> = 1 / 2" using d by simp
    show ?thesis
    proof (cases "even \<lfloor>m\<rfloor>")
      case True
      then have "rne m = \<lfloor>m\<rfloor>" using 3 by (simp add: rne_def Let_def)
      moreover have "rne (- m) = \<lfloor>- m\<rfloor> + 1" using d' True fl by (simp add: rne_def Let_def)
      ultimately show ?thesis using fl by simp
    next
      case False
      then have "rne m = \<lfloor>m\<rfloor> + 1" using 3 by (simp add: rne_def Let_def)
      moreover have "rne (- m) = \<lfloor>- m\<rfloor>" using d' False fl by (simp add: rne_def Let_def)
      ultimately show ?thesis using fl by simp
    qed
  qed
qed

lemma expo_search_range: "- 1022 \<le> expo_search n x \<and> expo_search n x \<le> int n - 1022"
  by (induction n) auto

lemma expo_search_lower: "- 1022 < expo_search n x \<Longrightarrow> 2 powi (expo_search n x) \<le> \<bar>x\<bar>"
  by (induction n) (auto split: if_splits)

lemma expo_search_upper:
  "expo_search n x < int n - 1022 \<Longrightarrow> \<bar>x\<bar> < 2 powi (expo_search n x + 1)"
proof (induction n)
  case 0
  then show ?case by simp
next
  case (Suc n)
  show ?case
  proof (cases "2 powi (int (Suc n) - 1022) \<le> \<bar>x\<bar>")
    case True
    then show ?thesis using Suc.prems by simp
  next
    case False
    then have r: "expo_search (Suc n) x = expo_search n x" by simp
    show ?thesis
    proof (cases "expo_search n x < int n - 1022")
      case True
      then show ?thesis using Suc.IH r by simp
    next
      case False
      then have "expo_search n x = int n - 1022" using expo_search_range[of n x] by linarith
      then have eq: "expo_search n x + 1 = int (Suc n) - 1022" by simp
      have "\<bar>x\<bar> < 2 powi (int (Suc n) - 1022)"
        using \<open>\<not> 2 powi (int (Suc n) - 1022) \<le> \<bar>x\<bar>\<close> by linarith
      then show ?thesis unfolding r eq .
    qed
  qed
qed

lemma expo_search_mono: "\<bar>x\<bar> \<le> \<bar>y\<bar> \<Longrightarrow> expo_search n x \<le> expo_search n y"
proof (induction n)
  case 0
  then show ?case by simp
next
  case (Suc n)
  have "expo_search n x \<le> int n - 1022" using expo_search_range[of n x] by simp
  then show ?case using Suc by auto
qed

lemma expo_search_eq:
  "- 1022 \<le> e \<Longrightarrow> e \<le> int n - 1022 \<Longrightarrow> e = - 1022 \<or> 2 powi e \<le> \<bar>x\<bar> \<Longrightarrow>
   e = int n - 1022 \<or> \<bar>x\<bar> < 2 powi (e + 1) \<Longrightarrow> expo_search n x = e"
proof (induction n)
  case 0
  then show ?case by simp
next
  case (Suc n)
  let ?k = "int (Suc n) - 1022"
  show ?case
  proof (cases "e = ?k")
    case True
    then have "e \<noteq> - 1022" by simp
    then have "2 powi ?k \<le> \<bar>x\<bar>" using Suc.prems(3) True by simp
    then show ?thesis using True by simp
  next
    case False
    then have lt: "\<bar>x\<bar> < 2 powi (e + 1)" using Suc.prems(4) by simp
    have "e + 1 \<le> ?k" using False Suc.prems(2) by simp
    then have "(2::real) powi (e + 1) \<le> 2 powi ?k" by (intro power_int_increasing) simp_all
    then have no: "\<not> 2 powi ?k \<le> \<bar>x\<bar>" using lt by linarith
    have "e \<le> int n - 1022" using False Suc.prems(2) by simp
    moreover have "e = int n - 1022 \<or> \<bar>x\<bar> < 2 powi (e + 1)" using lt by simp
    ultimately have "expo_search n x = e" using Suc.IH Suc.prems(1,3) by blast
    then show ?thesis using no by simp
  qed
qed

lemma expo_range: "- 1022 \<le> expo x" "expo x \<le> 1023"
  using expo_search_range[of 2045 x] by (simp_all add: expo_def)

lemma expo_lower: "- 1022 < expo x \<Longrightarrow> 2 powi (expo x) \<le> \<bar>x\<bar>"
  unfolding expo_def by (rule expo_search_lower)

lemma expo_upper: "expo x < 1023 \<Longrightarrow> \<bar>x\<bar> < 2 powi (expo x + 1)"
  unfolding expo_def using expo_search_upper[of 2045 x] by simp

lemma expo_mono: "\<bar>x\<bar> \<le> \<bar>y\<bar> \<Longrightarrow> expo x \<le> expo y"
  unfolding expo_def by (rule expo_search_mono)

lemma expo_eq:
  "- 1022 \<le> e \<Longrightarrow> e \<le> 1023 \<Longrightarrow> e = - 1022 \<or> 2 powi e \<le> \<bar>x\<bar> \<Longrightarrow>
   e = 1023 \<or> \<bar>x\<bar> < 2 powi (e + 1) \<Longrightarrow> expo x = e"
  unfolding expo_def using expo_search_eq[of e 2045 x] by simp

lemma expo_minus: "expo (- x) = expo x"
  using expo_mono[of x "- x"] expo_mono[of "- x" x] by simp

lemma pow2_pos: "0 < (2::real) powi k"
  by simp

lemma pow2_le_iff: "(2::real) powi a \<le> 2 powi b \<longleftrightarrow> a \<le> b"
proof
  assume h: "(2::real) powi a \<le> 2 powi b"
  show "a \<le> b"
  proof (rule ccontr)
    assume "\<not> a \<le> b"
    then have "b < a" by simp
    then have "(2::real) powi b < 2 powi a" by (intro power_int_strict_increasing) simp_all
    then show False using h by simp
  qed
next
  assume "a \<le> b"
  then show "(2::real) powi a \<le> 2 powi b" by (intro power_int_increasing) simp_all
qed

lemma pow2_less_iff: "(2::real) powi a < 2 powi b \<longleftrightarrow> a < b"
  using pow2_le_iff[of b a] by auto

lemma pow2_split: "j \<le> k \<Longrightarrow> (2::real) powi k = of_int (2 ^ nat (k - j)) * 2 powi j"
proof -
  assume jk: "j \<le> k"
  have "(2::real) powi k = 2 powi ((k - j) + j)" by simp
  also have "\<dots> = 2 powi (k - j) * 2 powi j" by (rule power_int_add) simp
  also have "(2::real) powi (k - j) = 2 ^ nat (k - j)" using jk by (simp add: power_int_nonneg_exp)
  finally show ?thesis by simp
qed

lemma rne_0 [simp]: "rne 0 = 0"
  using rne_of_int[of 0] by simp

lemma rne_pow2 [simp]: "rne (2 ^ n) = 2 ^ n"
  using rne_of_int[of "2 ^ n"] by simp

lemma rd_minus: "rd (- x) = - rd x"
  by (simp add: rd_def expo_minus rne_minus)

lemma rd_0: "rd 0 = 0"
  by (simp add: rd_def)

lemma rd_le_pow:
  assumes "x \<le> 2 powi k" "expo x - 52 \<le> k"
  shows "rd x \<le> 2 powi k"
proof -
  let ?u = "(2::real) powi (expo x - 52)"
  let ?N = "(2::int) ^ nat (k - (expo x - 52))"
  have u: "0 < ?u" by simp
  have k: "(2::real) powi k = of_int ?N * ?u" using assms(2) by (rule pow2_split)
  have "x / ?u \<le> of_int ?N" using assms(1) u unfolding k by (simp add: pos_divide_le_eq)
  then have "rne (x / ?u) \<le> rne (of_int ?N)" by (rule rne_mono)
  then have "rne (x / ?u) \<le> ?N" by simp
  then have "real_of_int (rne (x / ?u)) \<le> real_of_int ?N" by linarith
  then have "real_of_int (rne (x / ?u)) * ?u \<le> real_of_int ?N * ?u"
    using u by (intro mult_right_mono) simp_all
  then show ?thesis unfolding rd_def k .
qed

lemma rd_ge_pow:
  assumes "2 powi k \<le> x" "expo x - 52 \<le> k"
  shows "2 powi k \<le> rd x"
proof -
  let ?u = "(2::real) powi (expo x - 52)"
  let ?N = "(2::int) ^ nat (k - (expo x - 52))"
  have u: "0 < ?u" by simp
  have k: "(2::real) powi k = of_int ?N * ?u" using assms(2) by (rule pow2_split)
  have "of_int ?N \<le> x / ?u" using assms(1) u unfolding k by (simp add: pos_le_divide_eq)
  then have "rne (of_int ?N) \<le> rne (x / ?u)" by (rule rne_mono)
  then have "?N \<le> rne (x / ?u)" by simp
  then have "real_of_int ?N \<le> real_of_int (rne (x / ?u))" by linarith
  then have "real_of_int ?N * ?u \<le> real_of_int (rne (x / ?u)) * ?u"
    using u by (intro mult_right_mono) simp_all
  then show ?thesis unfolding rd_def k .
qed

lemma rd_nonneg: "0 \<le> x \<Longrightarrow> 0 \<le> rd x"
proof -
  assume x: "0 \<le> x"
  let ?u = "(2::real) powi (expo x - 52)"
  have "0 \<le> x / ?u" using x by simp
  then have "rne 0 \<le> rne (x / ?u)" by (rule rne_mono)
  then have "0 \<le> rne (x / ?u)" by simp
  then show ?thesis by (simp add: rd_def)
qed

lemma rd_mono_pos:
  assumes "0 \<le> x" "x \<le> y"
  shows "rd x \<le> rd y"
proof -
  have e: "expo x \<le> expo y" using assms by (intro expo_mono) simp
  show ?thesis
  proof (cases "expo x = expo y")
    case True
    let ?u = "(2::real) powi (expo y - 52)"
    have u: "0 < ?u" by simp
    have "x / ?u \<le> y / ?u" using assms(2) u by (simp add: divide_right_mono)
    then have "rne (x / ?u) \<le> rne (y / ?u)" by (rule rne_mono)
    then have "real_of_int (rne (x / ?u)) \<le> real_of_int (rne (y / ?u))" by linarith
    then have "real_of_int (rne (x / ?u)) * ?u \<le> real_of_int (rne (y / ?u)) * ?u"
      using u by (intro mult_right_mono) simp_all
    then show ?thesis unfolding rd_def True .
  next
    case False
    then have lt: "expo x < expo y" using e by simp
    have "expo x < 1023" using lt expo_range(2)[of y] by linarith
    then have "\<bar>x\<bar> < 2 powi (expo x + 1)" by (rule expo_upper)
    then have "x \<le> 2 powi (expo x + 1)" by linarith
    then have a: "rd x \<le> 2 powi (expo x + 1)" by (rule rd_le_pow) simp
    have b: "(2::real) powi (expo x + 1) \<le> 2 powi (expo y)" using lt by (simp add: pow2_le_iff)
    have "- 1022 < expo y" using lt expo_range(1)[of x] by linarith
    then have "2 powi (expo y) \<le> \<bar>y\<bar>" by (rule expo_lower)
    moreover have "0 \<le> y" using assms by linarith
    ultimately have "2 powi (expo y) \<le> y" by simp
    then have c: "2 powi (expo y) \<le> rd y" by (rule rd_ge_pow) simp
    show ?thesis using a b c by linarith
  qed
qed

lemma rd_mono:
  assumes "x \<le> y"
  shows "rd x \<le> rd y"
proof -
  consider "0 \<le> x" | "y \<le> 0" | "x < 0" "0 < y" by linarith
  then show ?thesis
  proof cases
    case 1
    then show ?thesis using assms by (rule rd_mono_pos)
  next
    case 2
    have "rd (- y) \<le> rd (- x)" using 2 assms by (intro rd_mono_pos) simp_all
    then show ?thesis by (simp add: rd_minus)
  next
    case 3
    have "0 \<le> rd (- x)" using 3 by (intro rd_nonneg) simp
    then have "rd x \<le> 0" by (simp add: rd_minus)
    moreover have "0 \<le> rd y" using 3 by (intro rd_nonneg) simp
    ultimately show ?thesis by linarith
  qed
qed

lemma expo_pow2_le: "- 1074 \<le> k \<Longrightarrow> expo (2 powi k) - 52 \<le> k"
proof -
  assume k: "- 1074 \<le> k"
  show ?thesis
  proof (cases "- 1022 < expo (2 powi k)")
    case True
    then have "2 powi (expo (2 powi k)) \<le> \<bar>(2::real) powi k\<bar>" by (rule expo_lower)
    then have "expo (2 powi k) \<le> k" by (simp add: pow2_le_iff)
    then show ?thesis by simp
  next
    case False
    then show ?thesis using k by simp
  qed
qed

lemma rd_pow2: "- 1074 \<le> k \<Longrightarrow> rd (2 powi k) = 2 powi k"
proof -
  assume k: "- 1074 \<le> k"
  have e: "expo (2 powi k) - 52 \<le> k" using k by (rule expo_pow2_le)
  have "rd (2 powi k) \<le> 2 powi k" using _ e by (rule rd_le_pow) simp
  moreover have "2 powi k \<le> rd (2 powi k)" using _ e by (rule rd_ge_pow) simp
  ultimately show ?thesis by simp
qed

lemma rd_exact:
  assumes m: "\<bar>m\<bar> \<le> 2 ^ 53" and j: "- 1074 \<le> j"
  shows "rd (of_int m * 2 powi j) = of_int m * 2 powi j"
proof -
  define z where "z = real_of_int m * 2 powi j"
  define e where "e = expo z"
  define u where "u = (2::real) powi (e - 52)"
  have u: "0 < u" by (simp add: u_def)
  have az: "\<bar>z\<bar> = real_of_int \<bar>m\<bar> * 2 powi j" by (simp add: z_def abs_mult)
  have rdz: "rd z = of_int (rne (z / u)) * u" by (simp add: rd_def e_def u_def)
  have "rd z = z"
  proof (cases "e - 52 \<le> j")
    case True
    define N where "N = (2::int) ^ nat (j - (e - 52))"
    have "(2::real) powi j = of_int N * u" unfolding N_def u_def using True by (rule pow2_split)
    then have zN: "z = of_int (m * N) * u" by (simp add: z_def)
    then have "z / u = of_int (m * N)" using u by simp
    then have "rne (z / u) = m * N" by (simp only: rne_of_int)
    then show ?thesis using rdz zN by simp
  next
    case False
    then have lt: "j + 52 < e" by simp
    then have e1: "- 1022 < expo z" using j by (simp add: e_def)
    then have "2 powi (expo z) \<le> \<bar>z\<bar>" by (rule expo_lower)
    then have lo: "2 powi e \<le> \<bar>z\<bar>" by (simp add: e_def)
    have "real_of_int \<bar>m\<bar> \<le> real_of_int (2 ^ 53)" using m by linarith
    then have "real_of_int \<bar>m\<bar> \<le> 2 ^ 53" by simp
    then have "real_of_int \<bar>m\<bar> * 2 powi j \<le> 2 ^ 53 * 2 powi j"
      by (intro mult_right_mono) simp_all
    also have "(2::real) ^ 53 * 2 powi j = 2 powi (j + 53)"
      by (simp add: power_int_add)
    finally have hi: "\<bar>z\<bar> \<le> 2 powi (j + 53)" unfolding az .
    have "(2::real) powi e \<le> 2 powi (j + 53)" using lo hi by linarith
    then have "e \<le> j + 53" by (simp add: pow2_le_iff)
    then have ee: "e = j + 53" using lt by linarith
    have "\<bar>z\<bar> = 2 powi e" using lo hi ee by simp
    then have "z = 2 powi e \<or> z = - (2 powi e)" by linarith
    moreover have "rd (2 powi e) = 2 powi e" using e1 by (intro rd_pow2) (simp add: e_def)
    ultimately show ?thesis using rd_minus[of "2 powi e"] by auto
  qed
  then show ?thesis by (simp add: z_def)
qed

lemma rne_abs_le:
  assumes "\<bar>y\<bar> \<le> 2 ^ n"
  shows "\<bar>rne y\<bar> \<le> 2 ^ n"
proof -
  have "rne y \<le> rne (2 ^ n)" using assms by (intro rne_mono) linarith
  moreover have "rne (- (2 ^ n)) \<le> rne y" using assms by (intro rne_mono) linarith
  ultimately show ?thesis by (simp add: rne_minus)
qed

lemma rd_idem:
  assumes "\<bar>rd x\<bar> < 2 ^ 1024"
  shows "rd (rd x) = rd x"
proof -
  define e where "e = expo x"
  define u where "u = (2::real) powi (e - 52)"
  define m where "m = rne (x / u)"
  have u: "0 < u" by (simp add: u_def)
  have rdx: "rd x = of_int m * u" by (simp add: rd_def e_def u_def m_def)
  have e: "- 1022 \<le> e" "e \<le> 1023" using expo_range[of x] by (simp_all add: e_def)
  have m: "\<bar>m\<bar> \<le> 2 ^ 53"
  proof (cases "e < 1023")
    case True
    then have "\<bar>x\<bar> < 2 powi (e + 1)" using expo_upper[of x] by (simp add: e_def)
    also have "(2::real) powi (e + 1) = 2 ^ 53 * u"
      using pow2_split[of "e - 52" "e + 1"] by (simp add: u_def)
    finally have "\<bar>x\<bar> / u < 2 ^ 53" using u by (simp add: pos_divide_less_eq)
    then have "\<bar>x / u\<bar> \<le> 2 ^ 53" using u by simp
    then show ?thesis unfolding m_def by (rule rne_abs_le)
  next
    case False
    then have e1023: "e = 1023" using e by simp
    have "(2::real) ^ 1024 = 2 powi 1024" by simp
    also have "\<dots> = 2 ^ 53 * u" using pow2_split[of "e - 52" 1024] e1023 by (simp add: u_def)
    finally have "\<bar>real_of_int m * u\<bar> < 2 ^ 53 * u" using assms rdx by simp
    then have "\<bar>real_of_int m\<bar> * u < 2 ^ 53 * u" using u by (simp add: abs_mult)
    then have "\<bar>real_of_int m\<bar> < 2 ^ 53" using u by simp
    then have "real_of_int \<bar>m\<bar> < real_of_int (2 ^ 53)" by simp
    then have "\<bar>m\<bar> < 2 ^ 53" by linarith
    then show ?thesis by simp
  qed
  have "rd (of_int m * 2 powi (e - 52)) = of_int m * 2 powi (e - 52)"
    using m by (rule rd_exact) (use e in simp)
  then show ?thesis by (simp add: rdx u_def)
qed

lemma dbl_Fin: "dbl x = Fin y \<longleftrightarrow> y = rd x \<and> \<bar>rd x\<bar> < 2 ^ 1024"
  by (auto simp: dbl_def)

lemma dbl_not_NaN [simp]: "dbl x \<noteq> NaN"
  by (simp add: dbl_def)

lemma dbl_minus: "dbl (- x) = js_neg (dbl x)"
  by (auto simp: dbl_def rd_minus)

lemma dbl_mono: "x \<le> y \<Longrightarrow> js_le (dbl x) (dbl y)"
  using rd_mono[of x y] by (auto simp: dbl_def js_le_def)

lemma dbl_idem: "dbl x = Fin y \<Longrightarrow> dbl y = Fin y"
  using rd_idem[of x] by (auto simp: dbl_Fin)

lemma dbl_0 [simp]: "dbl 0 = Fin 0"
  by (simp add: dbl_Fin rd_0)

lemma dbl_pow2: "- 1074 \<le> k \<Longrightarrow> k \<le> 1023 \<Longrightarrow> dbl (2 powi k) = Fin (2 powi k)"
proof -
  assume k: "- 1074 \<le> k" "k \<le> 1023"
  have "(2::real) powi k < 2 powi 1024" using k by (simp only: pow2_less_iff)
  then have "\<bar>(2::real) powi k\<bar> < 2 ^ 1024" by simp
  then show ?thesis using rd_pow2[OF k(1)] by (simp add: dbl_Fin)
qed

lemma dbl_1 [simp]: "dbl 1 = Fin 1"
  using dbl_pow2[of 0] by simp

lemma exact_bound:
  assumes "\<bar>m\<bar> \<le> 2 ^ 53" "j \<le> 970"
  shows "\<bar>real_of_int m * 2 powi j\<bar> < 2 ^ 1024"
proof -
  have "real_of_int \<bar>m\<bar> \<le> real_of_int (2 ^ 53)" using assms(1) by linarith
  then have "real_of_int \<bar>m\<bar> \<le> 2 ^ 53" by simp
  then have "real_of_int \<bar>m\<bar> * 2 powi j \<le> 2 ^ 53 * 2 powi j"
    by (intro mult_right_mono) simp_all
  also have "(2::real) ^ 53 * 2 powi j = 2 powi (j + 53)" by (simp add: power_int_add)
  also have "\<dots> < 2 powi 1024" using assms(2) by (simp only: pow2_less_iff)
  finally show ?thesis by (simp add: abs_mult)
qed

lemma dbl_exact:
  assumes "\<bar>m\<bar> \<le> 2 ^ 53" "- 1074 \<le> j" "j \<le> 970"
  shows "dbl (of_int m * 2 powi j) = Fin (of_int m * 2 powi j)"
  using rd_exact[OF assms(1,2)] exact_bound[OF assms(1,3)] by (simp add: dbl_Fin)

lemma dbl_int: "\<bar>n\<bar> \<le> 2 ^ 53 \<Longrightarrow> dbl (of_int n) = Fin (of_int n)"
  using dbl_exact[of n 0] by simp

lemma dbl_between:
  assumes "dbl a = Fin a" "dbl b = Fin b" "a \<le> x" "x \<le> b"
  shows "\<exists>y. dbl x = Fin y \<and> a \<le> y \<and> y \<le> b"
proof -
  have "js_le (Fin a) (dbl x)" using dbl_mono[OF assms(3)] assms(1) by simp
  moreover have "js_le (dbl x) (Fin b)" using dbl_mono[OF assms(4)] assms(2) by simp
  ultimately show ?thesis by (cases "dbl x") (auto simp: js_le_def)
qed

lemma rne_near: "\<bar>y - of_int m\<bar> < 1 / 2 \<Longrightarrow> rne y = m"
proof -
  assume h: "\<bar>y - of_int m\<bar> < 1 / 2"
  show ?thesis
  proof (cases "of_int m \<le> y")
    case True
    have "\<lfloor>y\<rfloor> = m" by (rule floor_unique) (use h True in linarith)+
    then show ?thesis using h True by (simp add: rne_def Let_def)
  next
    case False
    have c: "real_of_int (m - 1) = real_of_int m - 1" by simp
    have f: "\<lfloor>y\<rfloor> = m - 1" by (rule floor_unique) (use h False c in linarith)+
    have "1 / 2 < y - real_of_int (m - 1)" using h False c by linarith
    then show ?thesis unfolding rne_def Let_def f by simp
  qed
qed

lemma rne_tie: "y = of_int m + 1 / 2 \<Longrightarrow> rne y = (if even m then m else m + 1)"
proof -
  assume h: "y = of_int m + 1 / 2"
  have f: "\<lfloor>y\<rfloor> = m" by (rule floor_unique) (use h in linarith)+
  show ?thesis unfolding rne_def Let_def f using h by simp
qed

lemma dbl_round:
  assumes e: "- 1022 \<le> e" "e \<le> 1022"
    and lo: "e = - 1022 \<or> 2 powi e \<le> \<bar>x\<bar>"
    and hi: "\<bar>x\<bar> < 2 powi (e + 1)"
    and r: "rne (x / 2 powi (e - 52)) = m"
  shows "dbl x = Fin (of_int m * 2 powi (e - 52))"
proof -
  have ex: "expo x = e" using e lo hi by (intro expo_eq) simp_all
  define u where "u = (2::real) powi (e - 52)"
  have u: "0 < u" by (simp add: u_def)
  have rdx: "rd x = of_int m * u" using r by (simp add: rd_def ex u_def)
  have "(2::real) powi (e + 1) = 2 ^ 53 * u"
    using pow2_split[of "e - 52" "e + 1"] by (simp add: u_def)
  then have "\<bar>x\<bar> / u < 2 ^ 53" using hi u by (simp add: pos_divide_less_eq)
  then have "\<bar>x / u\<bar> \<le> 2 ^ 53" using u by simp
  then have "\<bar>rne (x / u)\<bar> \<le> 2 ^ 53" by (rule rne_abs_le)
  then have m: "\<bar>m\<bar> \<le> 2 ^ 53" using r by (simp add: u_def)
  have "\<bar>real_of_int m * u\<bar> < 2 ^ 1024"
    unfolding u_def using m by (rule exact_bound) (use e in simp)
  then show ?thesis using rdx by (simp add: dbl_Fin u_def)
qed

lemma dbl_near:
  assumes "- 1022 \<le> e" "e \<le> 1022" "e = - 1022 \<or> 2 powi e \<le> \<bar>x\<bar>" "\<bar>x\<bar> < 2 powi (e + 1)"
    and "\<bar>x / 2 powi (e - 52) - of_int m\<bar> < 1 / 2"
  shows "dbl x = Fin (of_int m * 2 powi (e - 52))"
  using assms(1-4) rne_near[OF assms(5)] by (rule dbl_round)

lemma dbl_tie:
  assumes "- 1022 \<le> e" "e \<le> 1022" "e = - 1022 \<or> 2 powi e \<le> \<bar>x\<bar>" "\<bar>x\<bar> < 2 powi (e + 1)"
    and "x / 2 powi (e - 52) = of_int m + 1 / 2"
  shows "dbl x = Fin (of_int (if even m then m else m + 1) * 2 powi (e - 52))"
  using assms(1-4) rne_tie[OF assms(5)] by (rule dbl_round)


section \<open>Properties of the number model and of the sort\<close>

lemma js_le_trans: "js_le a b \<Longrightarrow> js_le b c \<Longrightarrow> js_le a c"
  by (cases a; cases b; cases c) (auto simp: js_le_def)

lemma js_lt_le_trans: "js_lt a b \<Longrightarrow> js_le b c \<Longrightarrow> js_lt a c"
  by (cases a; cases b; cases c) (auto simp: js_le_def)

lemma js_le_lt_trans: "js_le a b \<Longrightarrow> js_lt b c \<Longrightarrow> js_lt a c"
  by (cases a; cases b; cases c) (auto simp: js_le_def)

lemma js_lt_imp_le: "js_lt a b \<Longrightarrow> js_le a b"
  by (simp add: js_le_def)

lemma js_lt_not_le: "js_lt a b \<Longrightarrow> \<not> js_le b a"
  by (cases a; cases b) (auto simp: js_le_def)

lemma js_not_lt_le: "a \<noteq> NaN \<Longrightarrow> b \<noteq> NaN \<Longrightarrow> \<not> js_lt b a \<Longrightarrow> js_le a b"
  by (cases a; cases b) (auto simp: js_le_def)

lemma js_lt_irrefl: "\<not> js_lt a a"
  by (cases a) auto

lemma by_t_gt: "js_gt (by_t a b) (Fin 0) = js_lt (t b) (t a)"
  by (cases "t a"; cases "t b") (auto simp: by_t_def js_sub_def js_gt_def)

lemma sort_insert_by_t:
  "sort_insert by_t x (y # ys) = (if js_lt (t y) (t x) then y # sort_insert by_t x ys else x # y # ys)"
  by (simp add: by_t_gt)

lemma set_sort_insert: "set (sort_insert cmp x ys) = insert x (set ys)"
  by (induction ys) auto

lemma set_js_sort: "set (js_sort cmp xs) = set xs"
  by (induction xs) (auto simp: js_sort_def set_sort_insert)

lemma length_sort_insert: "length (sort_insert cmp x ys) = Suc (length ys)"
  by (induction ys) auto

lemma length_js_sort: "length (js_sort cmp xs) = length xs"
  by (induction xs) (auto simp: js_sort_def length_sort_insert)

lemma ascending_sort_insert:
  "t x \<noteq> NaN \<Longrightarrow> \<forall>y\<in>set ys. t y \<noteq> NaN \<Longrightarrow> ascending ys \<Longrightarrow> ascending (sort_insert by_t x ys)"
proof (induction ys)
  case Nil
  then show ?case by (simp add: ascending_def)
next
  case (Cons y ys)
  show ?case
  proof (cases "js_lt (t y) (t x)")
    case True
    have "ascending (sort_insert by_t x ys)" using Cons by (simp add: ascending_def)
    moreover have "\<forall>z\<in>set (sort_insert by_t x ys). js_le (t y) (t z)"
      using Cons.prems(3) True by (auto simp: set_sort_insert ascending_def js_lt_imp_le)
    ultimately show ?thesis using True by (simp add: by_t_gt ascending_def)
  next
    case False
    have xy: "js_le (t x) (t y)" using False Cons.prems by (simp add: js_not_lt_le)
    have "\<forall>z\<in>set ys. js_le (t x) (t z)"
      using Cons.prems(3) xy by (auto simp: ascending_def intro: js_le_trans)
    then show ?thesis using False xy Cons.prems(3) by (simp add: by_t_gt ascending_def)
  qed
qed

lemma ascending_js_sort:
  "\<forall>f\<in>set fs. t f \<noteq> NaN \<Longrightarrow> ascending (js_sort by_t fs)"
proof (induction fs)
  case Nil
  then show ?case by (simp add: js_sort_def ascending_def)
next
  case (Cons f fs)
  have "ascending (sort_insert by_t f (js_sort by_t fs))"
    using Cons by (intro ascending_sort_insert) (auto simp: set_js_sort)
  then show ?case by (simp add: js_sort_def)
qed

lemma filter_sort_insert_other:
  "t x \<noteq> k \<Longrightarrow> filter (\<lambda>f. t f = k) (sort_insert by_t x ys) = filter (\<lambda>f. t f = k) ys"
  by (induction ys) (auto simp: by_t_gt)

lemma filter_sort_insert_same:
  "ascending ys \<Longrightarrow> filter (\<lambda>f. t f = t x) (sort_insert by_t x ys) = x # filter (\<lambda>f. t f = t x) ys"
proof (induction ys)
  case Nil
  then show ?case by simp
next
  case (Cons y ys)
  then show ?case
    by (auto simp: by_t_gt ascending_def js_lt_irrefl)
qed

lemma stable_js_sort:
  "\<forall>f\<in>set fs. t f \<noteq> NaN \<Longrightarrow> filter (\<lambda>f. t f = k) (js_sort by_t fs) = filter (\<lambda>f. t f = k) fs"
proof (induction fs)
  case Nil
  then show ?case by (simp add: js_sort_def)
next
  case (Cons f fs)
  have asc: "ascending (js_sort by_t fs)" using Cons.prems by (simp add: ascending_js_sort)
  have IH: "filter (\<lambda>f. t f = k) (js_sort by_t fs) = filter (\<lambda>f. t f = k) fs"
    using Cons by simp
  have unf: "js_sort by_t (f # fs) = sort_insert by_t f (js_sort by_t fs)"
    by (simp add: js_sort_def)
  show ?case
  proof (cases "t f = k")
    case True
    then show ?thesis using filter_sort_insert_same[OF asc, of f] IH unf by auto
  next
    case False
    then show ?thesis using filter_sort_insert_other[of f k] IH unf by auto
  qed
qed


text \<open>
  Claim C7. The sorted-frame derivation of both hooks (\<open>sortedFrames\<close> in the player,
  the frames stored by \<open>reconcile\<close> in the session) is ascending in \<open>t\<close>, keeps exactly
  the input frames, and is stable: the frames of any one time \<open>k\<close> appear in their input
  order. Frame times are never NaN (\<open>validateReplayFrame\<close> rejects it).
\<close>

theorem sortedFrames_ascending_stable:
  "\<forall>f\<in>set fs. t f \<noteq> NaN \<Longrightarrow>
     ascending (sortedFrames (Some fs))
   \<and> set (sortedFrames (Some fs)) = set fs
   \<and> length (sortedFrames (Some fs)) = length fs
   \<and> (\<forall>k. filter (\<lambda>f. t f = k) (sortedFrames (Some fs)) = filter (\<lambda>f. t f = k) fs)
   \<and> ReplayEpisode.frames (reconcile (data\<lparr> ReplayEpisode.frames := fs \<rparr>))
       = sortedFrames (Some fs)"
proof -
  assume nn: "\<forall>f\<in>set fs. t f \<noteq> NaN"
  have a: "ascending (sortedFrames (Some fs))"
    using ascending_js_sort[OF nn] by (simp add: sortedFrames_def)
  have b: "set (sortedFrames (Some fs)) = set fs"
    by (simp add: sortedFrames_def set_js_sort)
  have c: "length (sortedFrames (Some fs)) = length fs"
    by (simp add: sortedFrames_def length_js_sort)
  have d: "\<forall>k. filter (\<lambda>f. t f = k) (sortedFrames (Some fs)) = filter (\<lambda>f. t f = k) fs"
    using stable_js_sort[OF nn] by (simp add: sortedFrames_def)
  have e: "ReplayEpisode.frames (reconcile (data\<lparr> ReplayEpisode.frames := fs \<rparr>))
       = sortedFrames (Some fs)"
    by (simp add: reconcile_def sortedFrames_def Let_def)
  show ?thesis using a b c d e by blast
qed

theorem sortedFrames_ascending_stable_witness:
  "t (fr_tagged 2 ''a'') \<noteq> NaN \<and> t (fr_tagged 1 ''b'') \<noteq> NaN
   \<and> ascending (sortedFrames (Some [fr_tagged 2 ''a'', fr_tagged 1 ''b'', fr_tagged 2 ''c'', fr_tagged 1 ''d'']))
   \<and> filter (\<lambda>f. t f = Fin 2)
        (sortedFrames (Some [fr_tagged 2 ''a'', fr_tagged 1 ''b'', fr_tagged 2 ''c'', fr_tagged 1 ''d'']))
      = [fr_tagged 2 ''a'', fr_tagged 2 ''c'']
   \<and> sortedFrames (Some [fr_tagged 2 ''a'', fr_tagged 1 ''b'', fr_tagged 2 ''c'', fr_tagged 1 ''d''])
      = [fr_tagged 1 ''b'', fr_tagged 1 ''d'', fr_tagged 2 ''a'', fr_tagged 2 ''c'']"
proof -
  have h: "\<forall>f\<in>set [fr_tagged 2 ''a'', fr_tagged 1 ''b'', fr_tagged 2 ''c'', fr_tagged 1 ''d'']. t f \<noteq> NaN"
    by (simp add: fr_tagged_def fr_def)
  have f: "filter (\<lambda>f. t f = Fin 2) [fr_tagged 2 ''a'', fr_tagged 1 ''b'', fr_tagged 2 ''c'', fr_tagged 1 ''d'']
           = [fr_tagged 2 ''a'', fr_tagged 2 ''c'']"
    by (simp add: fr_tagged_def fr_def)
  have e: "sortedFrames (Some [fr_tagged 2 ''a'', fr_tagged 1 ''b'', fr_tagged 2 ''c'', fr_tagged 1 ''d''])
      = [fr_tagged 1 ''b'', fr_tagged 1 ''d'', fr_tagged 2 ''a'', fr_tagged 2 ''c'']"
    by (simp add: sortedFrames_def js_sort_def by_t_def js_sub_def js_gt_def fr_tagged_def fr_def)
  show ?thesis using h f e sortedFrames_ascending_stable[OF h] by simp
qed

lemma findFrameIndex_loop_takeWhile:
  "findFrameIndex_loop fs q i b =
     (if takeWhile (\<lambda>f. js_le (t f) q) fs = [] then b
      else i + length (takeWhile (\<lambda>f. js_le (t f) q) fs) - 1)"
  by (induction fs arbitrary: i b) auto

lemma findFrameIndex_takeWhile:
  "findFrameIndex fs q = length (takeWhile (\<lambda>f. js_le (t f) q) fs) - 1"
  by (cases fs) (auto simp: findFrameIndex_def findFrameIndex_loop_takeWhile)

lemma ascending_nth:
  assumes "ascending fs" "i \<le> j" "j < length fs" "t (fs ! i) \<noteq> NaN"
  shows "js_le (t (fs ! i)) (t (fs ! j))"
proof (cases "i = j")
  case True
  then show ?thesis using assms(4) by (simp add: js_le_def)
next
  case False
  then show ?thesis using assms by (simp add: ascending_def sorted_wrt_iff_nth_less)
qed

lemma ascending_prefix:
  assumes "ascending fs" "j < length fs"
  shows "js_le (t (fs ! j)) q \<longleftrightarrow> j < length (takeWhile (\<lambda>f. js_le (t f) q) fs)"
proof
  let ?n = "length (takeWhile (\<lambda>f. js_le (t f) q) fs)"
  assume le: "js_le (t (fs ! j)) q"
  show "j < ?n"
  proof (rule ccontr)
    assume "\<not> j < ?n"
    then have nj: "?n \<le> j" by simp
    then have n: "?n < length fs" using assms(2) by simp
    have bad: "\<not> js_le (t (fs ! ?n)) q" using nth_length_takeWhile[OF n] .
    have "t (fs ! ?n) \<noteq> NaN"
    proof (cases "?n = j")
      case True
      then show ?thesis using le by (auto simp: js_le_def)
    next
      case False
      then have "?n < j" using nj by simp
      then have "js_le (t (fs ! ?n)) (t (fs ! j))"
        using assms by (simp add: ascending_def sorted_wrt_iff_nth_less)
      then show ?thesis by (auto simp: js_le_def)
    qed
    then have "js_le (t (fs ! ?n)) (t (fs ! j))" using ascending_nth[OF assms(1) nj assms(2)] by simp
    then show False using bad le js_le_trans by blast
  qed
next
  let ?P = "\<lambda>f. js_le (t f) q"
  assume "j < length (takeWhile ?P fs)"
  then have "?P (takeWhile ?P fs ! j)" using nth_mem set_takeWhileD by fastforce
  moreover have "takeWhile ?P fs ! j = fs ! j"
    using \<open>j < length (takeWhile ?P fs)\<close> by (rule takeWhile_nth)
  ultimately show "js_le (t (fs ! j)) q" by simp
qed

text \<open>
  Claim C4. On frames ascending by \<open>t\<close>, \<open>findFrameIndex\<close> is a floor search: it
  returns \<open>0\<close> on the empty list and when the query lies before the first frame, the
  last index when the query is at or after the last frame, \<open>i\<close> when the query lies
  strictly between frames \<open>i\<close> and \<open>i + 1\<close>, and in general the greatest index whose
  frame time is \<^verbatim>\<open><=\<close> the query (\<open>0\<close> when there is none).
\<close>

theorem findFrameIndex_floor:
  "ascending fs \<Longrightarrow>
     findFrameIndex [] q = 0
   \<and> (fs \<noteq> [] \<and> js_lt q (t (fs ! 0)) \<longrightarrow> findFrameIndex fs q = 0)
   \<and> (fs \<noteq> [] \<and> js_le (t (last fs)) q \<longrightarrow> findFrameIndex fs q = length fs - 1)
   \<and> (\<forall>i. i + 1 < length fs \<and> js_lt (t (fs ! i)) q \<and> js_lt q (t (fs ! (i + 1)))
          \<longrightarrow> findFrameIndex fs q = i)
   \<and> ((\<exists>j<length fs. js_le (t (fs ! j)) q) \<longrightarrow>
          findFrameIndex fs q < length fs
        \<and> js_le (t (fs ! findFrameIndex fs q)) q
        \<and> (\<forall>j<length fs. js_le (t (fs ! j)) q \<longrightarrow> j \<le> findFrameIndex fs q))
   \<and> ((\<forall>j<length fs. \<not> js_le (t (fs ! j)) q) \<longrightarrow> findFrameIndex fs q = 0)"
proof -
  assume asc: "ascending fs"
  let ?n = "length (takeWhile (\<lambda>f. js_le (t f) q) fs)"
  have idx: "findFrameIndex fs q = ?n - 1" by (rule findFrameIndex_takeWhile)
  have pre: "\<And>j. j < length fs \<Longrightarrow> js_le (t (fs ! j)) q \<longleftrightarrow> j < ?n"
    using ascending_prefix[OF asc] by blast
  have nlen: "?n \<le> length fs" by (rule length_takeWhile_le)
  have c1: "findFrameIndex [] q = 0" by (simp add: findFrameIndex_def)
  have c2: "fs \<noteq> [] \<and> js_lt q (t (fs ! 0)) \<longrightarrow> findFrameIndex fs q = 0"
  proof
    assume a: "fs \<noteq> [] \<and> js_lt q (t (fs ! 0))"
    then have "\<not> js_le (t (fs ! 0)) q" by (simp add: js_lt_not_le)
    then have "\<not> 0 < ?n" using pre[of 0] a by simp
    then show "findFrameIndex fs q = 0" using idx by simp
  qed
  have c3: "fs \<noteq> [] \<and> js_le (t (last fs)) q \<longrightarrow> findFrameIndex fs q = length fs - 1"
  proof
    assume a: "fs \<noteq> [] \<and> js_le (t (last fs)) q"
    then have "js_le (t (fs ! (length fs - 1))) q" using last_conv_nth[of fs] by simp
    then have "length fs - 1 < ?n" using pre[of "length fs - 1"] a by simp
    then have "?n = length fs" using nlen by linarith
    then show "findFrameIndex fs q = length fs - 1" using idx by simp
  qed
  have c4: "\<forall>i. i + 1 < length fs \<and> js_lt (t (fs ! i)) q \<and> js_lt q (t (fs ! (i + 1)))
          \<longrightarrow> findFrameIndex fs q = i"
  proof (intro allI impI)
    fix i
    assume a: "i + 1 < length fs \<and> js_lt (t (fs ! i)) q \<and> js_lt q (t (fs ! (i + 1)))"
    then have "js_le (t (fs ! i)) q" by (simp add: js_lt_imp_le)
    then have lo: "i < ?n" using pre[of i] a by simp
    have "\<not> js_le (t (fs ! (i + 1))) q" using a by (simp add: js_lt_not_le)
    then have "\<not> i + 1 < ?n" using pre[of "i + 1"] a by simp
    then show "findFrameIndex fs q = i" using lo idx by simp
  qed
  have c5: "(\<exists>j<length fs. js_le (t (fs ! j)) q) \<longrightarrow>
          findFrameIndex fs q < length fs
        \<and> js_le (t (fs ! findFrameIndex fs q)) q
        \<and> (\<forall>j<length fs. js_le (t (fs ! j)) q \<longrightarrow> j \<le> findFrameIndex fs q)"
  proof
    assume "\<exists>j<length fs. js_le (t (fs ! j)) q"
    then obtain j where j: "j < length fs" "js_le (t (fs ! j)) q" by blast
    then have "j < ?n" using pre[of j] by blast
    then have pos: "0 < ?n" by linarith
    then have lt: "?n - 1 < length fs" using nlen by linarith
    have "?n - 1 < ?n" using pos by linarith
    then have "js_le (t (fs ! (?n - 1))) q" using pre[OF lt] by simp
    moreover have "\<forall>k<length fs. js_le (t (fs ! k)) q \<longrightarrow> k \<le> ?n - 1"
      using pre by auto
    ultimately show "findFrameIndex fs q < length fs
        \<and> js_le (t (fs ! findFrameIndex fs q)) q
        \<and> (\<forall>j<length fs. js_le (t (fs ! j)) q \<longrightarrow> j \<le> findFrameIndex fs q)"
      using lt idx by simp
  qed
  have c6: "(\<forall>j<length fs. \<not> js_le (t (fs ! j)) q) \<longrightarrow> findFrameIndex fs q = 0"
  proof
    assume a: "\<forall>j<length fs. \<not> js_le (t (fs ! j)) q"
    have "?n = 0"
    proof (rule ccontr)
      assume "?n \<noteq> 0"
      then have "0 < ?n" by linarith
      moreover from this have "0 < length fs" using nlen by linarith
      ultimately show False using pre[of 0] a by blast
    qed
    then show "findFrameIndex fs q = 0" using idx by simp
  qed
  show ?thesis using c1 c2 c3 c4 c5 c6 by blast
qed

theorem findFrameIndex_floor_witness:
  "ascending [fr 0, fr 2, fr 5]
   \<and> js_lt (t ([fr 0, fr 2, fr 5] ! 1)) (Fin 3) \<and> js_lt (Fin 3) (t ([fr 0, fr 2, fr 5] ! (1 + 1)))
   \<and> findFrameIndex [fr 0, fr 2, fr 5] (Fin 3) = 1
   \<and> js_lt (Fin (- 1)) (t ([fr 0, fr 2, fr 5] ! 0))
   \<and> findFrameIndex [fr 0, fr 2, fr 5] (Fin (- 1)) = 0
   \<and> js_le (t (last [fr 0, fr 2, fr 5])) (Fin 5)
   \<and> findFrameIndex [fr 0, fr 2, fr 5] (Fin 5) = length [fr 0, fr 2, fr 5] - 1
   \<and> findFrameIndex [] (Fin 3) = 0"
proof -
  have asc: "ascending [fr 0, fr 2, fr 5]" by (simp add: ascending_def fr_def js_le_def)
  have ne: "[fr 0, fr 2, fr 5] \<noteq> []" and len: "1 + 1 < length [fr 0, fr 2, fr 5]" by simp_all
  have mid: "js_lt (t ([fr 0, fr 2, fr 5] ! 1)) (Fin 3)"
    "js_lt (Fin 3) (t ([fr 0, fr 2, fr 5] ! (1 + 1)))"
    by (simp_all add: fr_def)
  have before: "js_lt (Fin (- 1)) (t ([fr 0, fr 2, fr 5] ! 0))" by (simp add: fr_def)
  have after: "js_le (t (last [fr 0, fr 2, fr 5])) (Fin 5)" by (simp add: fr_def js_le_def)
  have a: "findFrameIndex [fr 0, fr 2, fr 5] (Fin 3) = 1 \<and> findFrameIndex [] (Fin 3) = 0"
    using len mid findFrameIndex_floor[OF asc, of "Fin 3"] by blast
  have b: "findFrameIndex [fr 0, fr 2, fr 5] (Fin (- 1)) = 0"
    using ne before findFrameIndex_floor[OF asc, of "Fin (- 1)"] by blast
  have c: "findFrameIndex [fr 0, fr 2, fr 5] (Fin 5) = length [fr 0, fr 2, fr 5] - 1"
    using ne after findFrameIndex_floor[OF asc, of "Fin 5"] by blast
  show ?thesis using asc mid before after a b c by blast
qed

lemma Math_max_Fin: "Math_max (Fin a) (Fin b) = Fin (max a b)"
  by (simp add: Math_max_def max_def)

lemma Math_min_Fin: "Math_min (Fin a) (Fin b) = Fin (min a b)"
  by (simp add: Math_min_def min_def)

lemma clamp_Fin: "clamp (Fin x) (Fin lo) (Fin hi) = Fin (min hi (max lo x))"
  by (simp add: clamp_def Math_max_Fin Math_min_Fin)

lemma js_le_Fin: "js_le (Fin a) (Fin b) = (a \<le> b)"
  by (auto simp: js_le_def)


lemma sortedFrames_empty: "fs0 = None \<or> fs0 = Some [] \<Longrightarrow> sortedFrames fs0 = []"
  by (auto simp: sortedFrames_def js_sort_def)

text \<open>
  Claim C10. With an empty frame list (\<^verbatim>\<open>null\<close> or \<^verbatim>\<open>[]\<close>), \<open>step d\<close> for an integer
  \<open>d\<close> from an index \<open>i \<ge> 0\<close> sets \<open>currentIndex\<close> to \<open>-1\<close> and \<open>currentTime\<close> to
  \<open>0\<close>; \<open>-1\<close> addresses no frame and differs from the index \<open>0\<close> that
  \<open>findFrameIndex\<close> returns on the empty list.
\<close>

theorem step_empty_frames:
  "Player.frames s = None \<or> Player.frames s = Some [] \<Longrightarrow>
   currentIndex s = Fin (real_of_int i) \<Longrightarrow> 0 \<le> i \<Longrightarrow>
     currentIndex (step (Fin (real_of_int d)) s) = Fin (- 1)
   \<and> currentTime (step (Fin (real_of_int d)) s) = Fin 0
   \<and> currentFrame (step (Fin (real_of_int d)) s) = None
   \<and> currentIndex (step (Fin (real_of_int d)) s) \<noteq> Fin (real (findFrameIndex (sortedFrames (Player.frames s)) q))"
proof -
  assume e: "Player.frames s = None \<or> Player.frames s = Some []"
    and i: "currentIndex s = Fin (real_of_int i)"
  have sf: "sortedFrames (Player.frames s) = []" using e by (rule sortedFrames_empty)
  have idx: "currentIndex (step (Fin (real_of_int d)) s) = Fin (- 1)"
    by (simp add: step_def sf i clamp_Fin Let_def)
  have tm: "currentTime (step (Fin (real_of_int d)) s) = Fin 0"
    by (simp add: step_def sf i clamp_Fin Let_def js_index_def)
  have fr: "currentFrame (step (Fin (real_of_int d)) s) = None"
    by (simp add: currentFrame_def step_def sf i clamp_Fin Let_def js_index_def)
  have ne: "Fin (- 1) \<noteq> Fin (real (findFrameIndex (sortedFrames (Player.frames s)) q))"
    by (simp add: sf findFrameIndex_def)
  show ?thesis using idx tm fr ne by simp
qed

theorem step_empty_frames_witness:
  "currentIndex (step (Fin 1) (useReplayPlayer (Some []) (Fin 0))) = Fin (- 1)
   \<and> currentTime (step (Fin 1) (useReplayPlayer (Some []) (Fin 0))) = Fin 0"
  using step_empty_frames[of "useReplayPlayer (Some []) (Fin 0)" 0 1 "Fin 0"]
  by (simp add: useReplayPlayer_def)

text \<open>
  Claim C8 as stated fails: \<open>play\<close> has no guard on the duration. On a paused clock
  with duration \<open>0\<close> it changes the state, and the clock is playing afterwards.
\<close>

theorem play_no_duration_guard_counterexample:
  "\<not> isPlaying (useReplayPlayer None (Fin 0))
   \<and> js_le (Player.duration (useReplayPlayer None (Fin 0))) (Fin 0)
   \<and> isPlaying (play (useReplayPlayer None (Fin 0)))
   \<and> play (useReplayPlayer None (Fin 0)) \<noteq> useReplayPlayer None (Fin 0)"
  by (simp add: useReplayPlayer_def play_def js_le_def)

lemma dbl_Fin_bound: "dbl x = Fin y \<Longrightarrow> \<bar>y\<bar> < 2 ^ 1024"
  by (auto simp: dbl_def split: if_splits)

lemma dbl_bound:
  assumes "\<bar>x\<bar> \<le> 2 powi k" "- 1074 \<le> k" "k \<le> 1023"
  shows "\<exists>y. dbl x = Fin y \<and> \<bar>y\<bar> \<le> 2 powi k"
proof -
  have b: "dbl (2 powi k) = Fin (2 powi k)" using assms(2,3) by (rule dbl_pow2)
  have a: "dbl (- (2 powi k)) = Fin (- (2 powi k))" using b by (simp add: dbl_minus)
  have "\<exists>y. dbl x = Fin y \<and> - (2 powi k) \<le> y \<and> y \<le> 2 powi k"
    using a b by (rule dbl_between) (use assms(1) in linarith)+
  then show ?thesis by auto
qed

lemma ms_double: "dbl (ms n) = Fin (ms n)" and ms_nonneg: "0 \<le> ms n"
  using ms[of n] by simp_all



lemma elapsed_finite: "\<exists>q. dbl (ms n - ms b) = Fin q \<and> \<bar>q\<bar> < 2 powi 1024"
proof -
  have b: "dbl (- ms b) = Fin (- ms b)" by (simp add: dbl_minus ms_double)
  have "\<exists>q. dbl (ms n - ms b) = Fin q \<and> - ms b \<le> q \<and> q \<le> ms n"
    using b ms_double by (rule dbl_between) (use ms_nonneg[of n] ms_nonneg[of b] in linarith)+
  then obtain q where q: "dbl (ms n - ms b) = Fin q" "- ms b \<le> q" "q \<le> ms n" by blast
  have n: "ms n < 2 powi 1024" using dbl_Fin_bound[OF ms_double[of n]] by simp
  have bb: "ms b < 2 powi 1024" using dbl_Fin_bound[OF ms_double[of b]] by simp
  have "\<bar>q\<bar> < 2 powi 1024" using q(2,3) n bb by linarith
  then show ?thesis using q(1) by blast
qed

lemma speed_value_range: "0 < speed_value x" "speed_value x \<le> 4"
  by (cases x; simp)+

lemma advance_finite:
  "\<exists>r. dbl_mul (dbl_div (dbl_sub (Fin (ms n)) (Fin (ms b))) (Fin 1000)) (Fin (speed_value x)) = Fin r"
proof -
  obtain q where q: "dbl (ms n - ms b) = Fin q" "\<bar>q\<bar> < 2 powi 1024"
    using elapsed_finite by blast
  have "(2::real) powi 1024 = 2 powi 1015 * 512" by simp
  then have "\<bar>q\<bar> < 2 powi 1015 * 512" using q(2) by simp
  then have "\<bar>q\<bar> / 1000 \<le> 2 powi 1015" by (simp add: field_simps)
  then have "\<bar>q / 1000\<bar> \<le> 2 powi 1015" by simp
  then obtain y where y: "dbl (q / 1000) = Fin y" "\<bar>y\<bar> \<le> 2 powi 1015"
    using dbl_bound[of "q / 1000" 1015] by auto
  have "\<bar>y * speed_value x\<bar> = \<bar>y\<bar> * speed_value x"
    using speed_value_range(1)[of x] by (simp add: abs_mult)
  also have "\<dots> \<le> 2 powi 1015 * 4"
    using y(2) speed_value_range[of x] by (intro mult_mono) simp_all
  also have "\<dots> = 2 powi 1017" by simp
  finally obtain r where "dbl (y * speed_value x) = Fin r"
    using dbl_bound[of "y * speed_value x" 1017] by auto
  then show ?thesis using q(1) y(1) by (simp add: dbl_sub_def)
qed

lemma dbl_add_not_NaN: "a \<noteq> NaN \<Longrightarrow> dbl_add a (Fin r) \<noteq> NaN"
  by (cases a) simp_all

lemma tick_playing:
  assumes "isPlaying s" "currentTime s \<noteq> NaN"
  obtains v where "v \<noteq> NaN"
    and "currentTime (tick n s) = clamp v (Fin 0) (Player.duration s)"
    and "isPlaying (tick n s) \<longleftrightarrow> \<not> js_ge (clamp v (Fin 0) (Player.duration s)) (Player.duration s)"
proof -
  define b where "b = (case lastTick s of None \<Rightarrow> n | Some l \<Rightarrow> if ms l = 0 then n else l)"
  obtain r where r: "dbl_mul (dbl_div (dbl_sub (Fin (ms n)) (Fin (ms b))) (Fin 1000))
      (Fin (speed_value (speed s))) = Fin r"
    using advance_finite by blast
  have v: "dbl_add (currentTime s) (Fin r) \<noteq> NaN" using assms(2) by (rule dbl_add_not_NaN)
  have "currentTime (tick n s) = clamp (dbl_add (currentTime s) (Fin r)) (Fin 0) (Player.duration s)"
    using assms(1) r by (simp add: tick_def Let_def b_def)
  moreover have "isPlaying (tick n s) \<longleftrightarrow>
      \<not> js_ge (clamp (dbl_add (currentTime s) (Fin r)) (Fin 0) (Player.duration s)) (Player.duration s)"
    using assms(1) r by (simp add: tick_def Let_def b_def)
  ultimately show ?thesis using v that by blast
qed


lemma clamp_nonpositive:
  assumes "v \<noteq> NaN" "js_le d (Fin 0)"
  shows "clamp v (Fin 0) d = d \<and> js_ge d d"
  using assms
  by (cases v; cases d) (auto simp: clamp_def Math_max_def Math_min_def js_le_def js_ge_def)

lemma tick_nonpositive_duration:
  assumes "isPlaying s" "js_le (Player.duration s) (Fin 0)" "currentTime s \<noteq> NaN"
  shows "\<not> isPlaying (tick now s) \<and> currentTime (tick now s) = Player.duration s"
proof -
  obtain v where v: "v \<noteq> NaN"
    "currentTime (tick now s) = clamp v (Fin 0) (Player.duration s)"
    "isPlaying (tick now s) \<longleftrightarrow> \<not> js_ge (clamp v (Fin 0) (Player.duration s)) (Player.duration s)"
    using tick_playing[OF assms(1,3)] by blast
  show ?thesis using clamp_nonpositive[OF v(1) assms(2)] v(2,3) by simp
qed

text \<open>
  Claim C8, amended. \<open>play\<close> sets \<open>isPlaying\<close> and changes no other field; it is a
  no-op when the clock is already playing. With a duration \<^verbatim>\<open><= 0\<close> the clock does
  enter the playing state, and the first animation frame after it pauses the clock
  again, leaving \<open>currentTime\<close> at the duration.
\<close>

theorem play_sets_playing:
  "isPlaying (play s)
   \<and> Player.frames (play s) = Player.frames s
   \<and> Player.duration (play s) = Player.duration s
   \<and> speed (play s) = speed s
   \<and> currentTime (play s) = currentTime s
   \<and> currentIndex (play s) = currentIndex s
   \<and> lastTick (play s) = lastTick s
   \<and> (isPlaying s \<longrightarrow> play s = s)
   \<and> (js_le (Player.duration s) (Fin 0) \<and> currentTime s \<noteq> NaN \<longrightarrow>
        isPlaying (play s) \<and> \<not> isPlaying (tick now (play s))
        \<and> currentTime (tick now (play s)) = Player.duration s)"
proof -
  have a: "isPlaying s \<longrightarrow> play s = s" by (simp add: play_def)
  have b: "js_le (Player.duration s) (Fin 0) \<and> currentTime s \<noteq> NaN \<longrightarrow>
        isPlaying (play s) \<and> \<not> isPlaying (tick now (play s))
        \<and> currentTime (tick now (play s)) = Player.duration s"
    using tick_nonpositive_duration[of "play s" now] by (simp add: play_def)
  show ?thesis using a b by (simp add: play_def)
qed

theorem play_sets_playing_witness:
  "isPlaying (play (useReplayPlayer None (Fin 0)))
   \<and> \<not> isPlaying (tick (stamp 16) (play (useReplayPlayer None (Fin 0))))
   \<and> play (play (useReplayPlayer None (Fin 5))) = play (useReplayPlayer None (Fin 5))"
proof -
  have h: "js_le (Player.duration (useReplayPlayer None (Fin 0))) (Fin 0)
           \<and> currentTime (useReplayPlayer None (Fin 0)) \<noteq> NaN"
    by (simp add: useReplayPlayer_def js_le_def)
  have p: "isPlaying (play (useReplayPlayer None (Fin 5)))"
    by (simp add: play_def)
  show ?thesis
    using h p play_sets_playing[of "useReplayPlayer None (Fin 0)" "stamp 16"]
          play_sets_playing[of "play (useReplayPlayer None (Fin 5))" "stamp 16"]
    by blast
qed

section \<open>The playback clock\<close>

lemma tick_paused: "\<not> isPlaying s \<Longrightarrow> tick now s = s"
  by (simp add: tick_def)

lemma ticks_paused: "\<not> isPlaying s \<Longrightarrow> ticks ns s = s"
  by (induction ns arbitrary: s) (auto simp: tick_paused)










section \<open>The episode session\<close>

lemma assertNumber_not_NaN: "assertNumber v name = Inr n \<Longrightarrow> n \<noteq> NaN"
  by (cases v) (auto simp: assertNumber_def split: if_splits)

lemma validateReplayFrame_not_NaN: "validateReplayFrame v = Inr f \<Longrightarrow> t f \<noteq> NaN"
  by (auto simp: validateReplayFrame_def split: sum.splits jsval.splits dest: assertNumber_not_NaN)

lemma validate_frames_not_NaN: "validate_frames vs = Inr fs \<Longrightarrow> \<forall>f\<in>set fs. t f \<noteq> NaN"
  by (induction vs arbitrary: fs)
     (auto split: sum.splits dest: validateReplayFrame_not_NaN)

lemma getEpisode_not_NaN:
  assumes "getEpisode response = Inr data"
  shows "(\<forall>f\<in>set (ReplayEpisode.frames data). t f \<noteq> NaN) \<and> ReplayEpisode.duration data \<noteq> NaN"
proof -
  from assms obtain body where b: "validateEpisode body = Inr data"
    by (auto simp: getEpisode_def split: sum.splits)
  then obtain obj fs d where
    fs: "(case js_get obj ''frames'' of JArr vs \<Rightarrow> validate_frames vs | _ \<Rightarrow> Inr []) = Inr fs"
    and d: "assertNumber (js_get obj ''duration'') ''duration'' = Inr d"
    and e: "ReplayEpisode.frames data = fs" "ReplayEpisode.duration data = d"
    by (auto simp: validateEpisode_def split: sum.splits)
  have "\<forall>f\<in>set fs. t f \<noteq> NaN"
    using fs by (cases "js_get obj ''frames''") (auto dest: validate_frames_not_NaN)
  then show ?thesis using d e assertNumber_not_NaN by auto
qed

lemma ascending_last_max:
  assumes "ascending fs" "\<forall>f\<in>set fs. t f \<noteq> NaN" "f \<in> set fs"
  shows "js_le (t f) (t (last fs))"
proof -
  obtain i where i: "i < length fs" "fs ! i = f" using assms(3) by (auto simp: in_set_conv_nth)
  have ne: "fs \<noteq> []" using assms(3) by auto
  have "t (fs ! i) \<noteq> NaN" using assms(2) i by auto
  then have "js_le (t (fs ! i)) (t (fs ! (length fs - 1)))"
    using ascending_nth[OF assms(1), of i "length fs - 1"] i by simp
  then show ?thesis using i ne by (simp add: last_conv_nth)
qed

lemma js_gt_0_not: "a \<noteq> NaN \<Longrightarrow> \<not> js_gt a (Fin 0) \<Longrightarrow> js_le a (Fin 0)"
  by (cases a) (auto simp: js_gt_def js_le_def)

lemma validateEpisode_sample: "getEpisode (sample_store eid) = Inr (sample_episode eid (Fin 0) [])"
  by (simp add: getEpisode_def sample_store_def sample_body_def validateEpisode_def assertObject_def
      assertString_def assertNumber_def js_get_def sample_episode_def)

text \<open>
  Claim C1 as stated fails: a stored duration that is finite and positive is kept as it
  is, also when a frame lies beyond it (duration \<open>5\<close>, a frame at \<open>12.5\<close>) and when
  there are no frames (duration \<open>7\<close>).
\<close>

theorem reconcile_duration_counterexample:
  "ReplayEpisode.duration (reconcile (sample_episode ''A'' (Fin 5) [fr (25 / 2)])) = Fin 5
   \<and> ReplayEpisode.frames (reconcile (sample_episode ''A'' (Fin 5) [fr (25 / 2)])) = [fr (25 / 2)]
   \<and> \<not> js_ge (ReplayEpisode.duration (reconcile (sample_episode ''A'' (Fin 5) [fr (25 / 2)])))
            (t (fr (25 / 2)))
   \<and> ReplayEpisode.duration (reconcile (sample_episode ''A'' (Fin 7) [])) = Fin 7"
  by (simp add: reconcile_def sample_episode_def js_sort_def js_gt_def js_ge_def js_le_def fr_def Let_def)

text \<open>
  Claim C1, amended. A successful load stores \<open>reconcile data\<close>. Its duration is
  \<^verbatim>\<open>>= 0\<close>. A fetched duration that is finite and \<^verbatim>\<open>> 0\<close> is stored unchanged. Any
  other fetched duration (non-finite or \<^verbatim>\<open><= 0\<close>) is replaced by the greatest frame time
  when that is positive and by \<open>0\<close> otherwise, so that it is \<^verbatim>\<open>>=\<close> every frame time;
  with no frames it is \<open>0\<close>.
\<close>

theorem reconcile_duration:
  "\<forall>f\<in>set (ReplayEpisode.frames data). t f \<noteq> NaN \<Longrightarrow>
     episode (load_settle (Inr data) s) = Some (reconcile data)
   \<and> js_ge (ReplayEpisode.duration (reconcile data)) (Fin 0)
   \<and> (isFinite (ReplayEpisode.duration data) \<and> js_gt (ReplayEpisode.duration data) (Fin 0) \<longrightarrow>
        ReplayEpisode.duration (reconcile data) = ReplayEpisode.duration data)
   \<and> (\<not> (isFinite (ReplayEpisode.duration data) \<and> js_gt (ReplayEpisode.duration data) (Fin 0)) \<longrightarrow>
        (\<forall>f\<in>set (ReplayEpisode.frames data). js_le (t f) (ReplayEpisode.duration (reconcile data)))
      \<and> (ReplayEpisode.duration (reconcile data) = Fin 0
         \<or> (\<exists>f\<in>set (ReplayEpisode.frames data). t f = ReplayEpisode.duration (reconcile data)))
      \<and> (ReplayEpisode.frames data = [] \<longrightarrow> ReplayEpisode.duration (reconcile data) = Fin 0))"
proof -
  assume nn: "\<forall>f\<in>set (ReplayEpisode.frames data). t f \<noteq> NaN"
  let ?fs = "js_sort by_t (ReplayEpisode.frames data)"
  let ?lastT = "if ?fs = [] then Fin 0 else t (last ?fs)"
  let ?ok = "isFinite (ReplayEpisode.duration data) \<and> js_gt (ReplayEpisode.duration data) (Fin 0)"
  let ?d = "if ?ok then ReplayEpisode.duration data else ?lastT"
  have dur: "ReplayEpisode.duration (reconcile data) = (if js_gt ?d (Fin 0) then ?d else Fin 0)"
    by (simp add: reconcile_def Let_def)
  have asc: "ascending ?fs" using nn by (rule ascending_js_sort)
  have nn': "\<forall>f\<in>set ?fs. t f \<noteq> NaN" using nn by (simp add: set_js_sort)
  have lastT_nn: "?lastT \<noteq> NaN" using nn' by auto
  have c1: "episode (load_settle (Inr data) s) = Some (reconcile data)"
    by (simp add: load_settle_def)
  have c2: "js_ge (ReplayEpisode.duration (reconcile data)) (Fin 0)"
    unfolding dur by (cases "js_gt ?d (Fin 0)") (auto simp: js_ge_def js_gt_def js_le_def)
  have c3: "?ok \<longrightarrow> ReplayEpisode.duration (reconcile data) = ReplayEpisode.duration data"
    unfolding dur by simp
  have c4: "\<not> ?ok \<longrightarrow>
        (\<forall>f\<in>set (ReplayEpisode.frames data). js_le (t f) (ReplayEpisode.duration (reconcile data)))
      \<and> (ReplayEpisode.duration (reconcile data) = Fin 0
         \<or> (\<exists>f\<in>set (ReplayEpisode.frames data). t f = ReplayEpisode.duration (reconcile data)))
      \<and> (ReplayEpisode.frames data = [] \<longrightarrow> ReplayEpisode.duration (reconcile data) = Fin 0)"
  proof
    assume bad: "\<not> ?ok"
    have "?d = ?lastT" using bad by (simp only: if_False)
    then have dur': "ReplayEpisode.duration (reconcile data) = (if js_gt ?lastT (Fin 0) then ?lastT else Fin 0)"
      using dur by (simp only:)
    have le_dur: "js_le ?lastT (ReplayEpisode.duration (reconcile data))"
      unfolding dur' using lastT_nn js_gt_0_not[of ?lastT] by (auto simp: js_le_def)
    have p1: "\<forall>f\<in>set (ReplayEpisode.frames data). js_le (t f) (ReplayEpisode.duration (reconcile data))"
    proof
      fix f assume "f \<in> set (ReplayEpisode.frames data)"
      then have m: "f \<in> set ?fs" by (simp add: set_js_sort)
      then have "?fs \<noteq> []" by auto
      moreover have "js_le (t f) (t (last ?fs))" using ascending_last_max[OF asc nn' m] .
      ultimately show "js_le (t f) (ReplayEpisode.duration (reconcile data))"
        using le_dur js_le_trans by auto
    qed
    have p2: "ReplayEpisode.duration (reconcile data) = Fin 0
         \<or> (\<exists>f\<in>set (ReplayEpisode.frames data). t f = ReplayEpisode.duration (reconcile data))"
    proof (cases "js_gt ?lastT (Fin 0)")
      case False
      then show ?thesis unfolding dur' by simp
    next
      case True
      then have ne: "?fs \<noteq> []" by (auto simp: js_gt_def)
      then have "last ?fs \<in> set (ReplayEpisode.frames data)"
        using last_in_set[OF ne] by (simp add: set_js_sort)
      moreover have "ReplayEpisode.duration (reconcile data) = t (last ?fs)"
        unfolding dur' using True ne by simp
      ultimately show ?thesis by auto
    qed
    have p3: "ReplayEpisode.frames data = [] \<longrightarrow> ReplayEpisode.duration (reconcile data) = Fin 0"
      unfolding dur' by (simp add: js_sort_def js_gt_def)
    show "(\<forall>f\<in>set (ReplayEpisode.frames data). js_le (t f) (ReplayEpisode.duration (reconcile data)))
      \<and> (ReplayEpisode.duration (reconcile data) = Fin 0
         \<or> (\<exists>f\<in>set (ReplayEpisode.frames data). t f = ReplayEpisode.duration (reconcile data)))
      \<and> (ReplayEpisode.frames data = [] \<longrightarrow> ReplayEpisode.duration (reconcile data) = Fin 0)"
      using p1 p2 p3 by blast
  qed
  show ?thesis using c1 c2 c3 c4 by blast
qed

theorem reconcile_duration_witness:
  "t (fr 3) \<noteq> NaN
   \<and> ReplayEpisode.duration (reconcile (sample_episode ''A'' NegInf [fr 3, fr (25 / 2), fr 7])) = Fin (25 / 2)
   \<and> ReplayEpisode.duration (reconcile (sample_episode ''A'' (Fin 0) [])) = Fin 0
   \<and> js_ge (ReplayEpisode.duration (reconcile (sample_episode ''A'' NegInf [fr 3, fr (25 / 2), fr 7]))) (Fin 0)"
proof -
  have h: "\<forall>f\<in>set (ReplayEpisode.frames (sample_episode ''A'' NegInf [fr 3, fr (25 / 2), fr 7])). t f \<noteq> NaN"
    by (simp add: sample_episode_def fr_def)
  have a: "ReplayEpisode.duration (reconcile (sample_episode ''A'' NegInf [fr 3, fr (25 / 2), fr 7])) = Fin (25 / 2)"
    by (simp add: reconcile_def sample_episode_def js_sort_def by_t_def js_sub_def js_gt_def fr_def Let_def)
  have b: "ReplayEpisode.duration (reconcile (sample_episode ''A'' (Fin 0) [])) = Fin 0"
    by (simp add: reconcile_def sample_episode_def js_sort_def js_gt_def Let_def)
  have c: "t (fr 3) \<noteq> NaN" by (simp add: fr_def)
  show ?thesis using a b c reconcile_duration[OF h] by blast
qed

text \<open>
  Claim C2 on the code. The id is switched to \<open>A\<close> and then to \<open>B\<close> while the request
  for \<open>A\<close> is in flight; the request for \<open>B\<close> settles first, the one for \<open>A\<close> last.
  After the response for \<open>B\<close> the session holds episode \<open>B\<close>; the late response for
  \<open>A\<close> then replaces it, although the hook's id is \<open>B\<close>.
\<close>

theorem stale_load_overwrites:
  "episodeId (session_run sample_store
       [SetEpisodeId (Some ''A''), SetEpisodeId (Some ''B''), Settle 1, Settle 0]) = Some ''B''
   \<and> map_option episode_id (episode (session_run sample_store
       [SetEpisodeId (Some ''A''), SetEpisodeId (Some ''B''), Settle 1])) = Some ''B''
   \<and> map_option episode_id (episode (session_run sample_store
       [SetEpisodeId (Some ''A''), SetEpisodeId (Some ''B''), Settle 1, Settle 0])) = Some ''A''"
  by (simp add: session_run_def useReplayEpisode_def episode_effect_def load_start_def
      load_settle_def validateEpisode_sample reconcile_def sample_episode_def js_sort_def js_gt_def Let_def)

section \<open>The smoothing primitives\<close>

lemma damp_Fin:
  "damp approx (Fin c) (Fin g) (Fin l) (Fin dt) =
     dbl_add (Fin c) (dbl_mul (dbl (g - c)) (dbl_sub (Fin 1) (Math_exp approx (dbl (- (l * dt))))))"
  by (simp add: damp_def dbl_sub_def Let_def)

lemma smoothValue_damp: "smoothValue approx c g l dt = damp approx c g l dt"
  by (simp add: damp_def smoothValue_def Let_def)

lemma full_step_Fin: "dbl_add (Fin c) (dbl_sub (Fin g) (Fin c)) = dbl_add (Fin c) (dbl (g - c))"
  by (simp add: dbl_sub_def)

lemma dbl_nonpos:
  assumes "x \<le> 0"
  shows "dbl x = NegInf \<or> (\<exists>v. dbl x = Fin v \<and> v \<le> 0)"
proof -
  have "js_le (dbl x) (Fin 0)" using dbl_mono[OF assms] by simp
  then show ?thesis by (cases "dbl x") (auto simp: js_le_def)
qed

lemma dbl_nonneg:
  assumes "0 \<le> x" "dbl x = Fin v"
  shows "0 \<le> v"
proof -
  have "js_le (Fin 0) (dbl x)" using dbl_mono[OF assms(1)] by simp
  then show ?thesis using assms(2) by (simp add: js_le_Fin)
qed

lemma dbl_nonpos_Fin:
  assumes "x \<le> 0" "dbl x = Fin v"
  shows "v \<le> 0"
  using dbl_nonpos[OF assms(1)] assms(2) by auto

lemma exp_range:
  assumes "\<forall>x<0. 0 \<le> approx x \<and> approx x \<le> 1" "y = NegInf \<or> (\<exists>v. y = Fin v \<and> v \<le> 0)"
  shows "\<exists>ev. Math_exp approx y = Fin ev \<and> 0 \<le> ev \<and> ev \<le> 1"
proof -
  have "y = NegInf \<or> y = Fin 0 \<or> (\<exists>v. y = Fin v \<and> v < 0)"
  proof (cases y)
    case (Fin v)
    then have "v \<le> 0" using assms(2) by simp
    then show ?thesis using Fin by (cases "v = 0") auto
  qed (use assms(2) in simp_all)
  then consider "y = NegInf" | "y = Fin 0" | v where "y = Fin v" "v < 0"
    by blast
  then show ?thesis
  proof cases
    case 1
    then show ?thesis by simp
  next
    case 2
    then show ?thesis by simp
  next
    case 3
    have "0 \<le> approx v" "approx v \<le> 1" using assms(1) 3(2) by auto
    then have "\<exists>ev. dbl (approx v) = Fin ev \<and> 0 \<le> ev \<and> ev \<le> 1"
      by (intro dbl_between) simp_all
    then show ?thesis using 3 by simp
  qed
qed

lemma blend_range:
  assumes "0 \<le> ev" "ev \<le> 1"
  shows "\<exists>tv. dbl_sub (Fin 1) (Fin ev) = Fin tv \<and> 0 \<le> tv \<and> tv \<le> 1"
proof -
  have "\<exists>tv. dbl (1 - ev) = Fin tv \<and> 0 \<le> tv \<and> tv \<le> 1"
    by (rule dbl_between) (use assms in simp_all)
  then show ?thesis by (simp add: dbl_sub_def)
qed

lemma damp_blend:
  assumes "\<forall>x<0. 0 \<le> approx x \<and> approx x \<le> 1" "0 < l" "0 \<le> dt"
  shows "\<exists>tv. dbl_sub (Fin 1) (Math_exp approx (dbl (- (l * dt)))) = Fin tv \<and> 0 \<le> tv \<and> tv \<le> 1"
proof -
  have "- (l * dt) \<le> 0" using assms(2,3) by simp
  then have "dbl (- (l * dt)) = NegInf \<or> (\<exists>v. dbl (- (l * dt)) = Fin v \<and> v \<le> 0)"
    by (rule dbl_nonpos)
  then obtain ev where ev: "Math_exp approx (dbl (- (l * dt))) = Fin ev" "0 \<le> ev" "ev \<le> 1"
    using exp_range[OF assms(1)] by blast
  show ?thesis using blend_range[OF ev(2,3)] ev(1) by simp
qed

lemma damp_between_up:
  assumes "\<forall>x<0. 0 \<le> approx x \<and> approx x \<le> 1" "0 < l" "0 \<le> dt"
    and c: "dbl c = Fin c" and q: "dbl (g - c) = Fin qv" and cg: "c \<le> g"
  shows "js_le (Fin c) (damp approx (Fin c) (Fin g) (Fin l) (Fin dt))"
    and "js_le (damp approx (Fin c) (Fin g) (Fin l) (Fin dt)) (dbl_add (Fin c) (dbl_sub (Fin g) (Fin c)))"
proof -
  obtain tv where tv: "dbl_sub (Fin 1) (Math_exp approx (dbl (- (l * dt)))) = Fin tv" "0 \<le> tv" "tv \<le> 1"
    using damp_blend[OF assms(1-3)] by blast
  have q0: "0 \<le> qv" using _ q by (rule dbl_nonneg) (use cg in simp)
  have qq: "dbl qv = Fin qv" using q by (rule dbl_idem)
  have "qv * tv \<le> qv * 1" using q0 tv(3) by (intro mult_left_mono) simp_all
  then have "\<exists>pv. dbl (qv * tv) = Fin pv \<and> 0 \<le> pv \<and> pv \<le> qv"
    using q0 tv(2) qq by (intro dbl_between) simp_all
  then obtain pv where pv: "dbl (qv * tv) = Fin pv" "0 \<le> pv" "pv \<le> qv" by blast
  have d: "damp approx (Fin c) (Fin g) (Fin l) (Fin dt) = dbl (c + pv)"
    by (simp add: damp_Fin tv(1) q pv(1))
  have f: "dbl_add (Fin c) (dbl_sub (Fin g) (Fin c)) = dbl (c + qv)"
    by (simp add: full_step_Fin q)
  have "js_le (dbl c) (dbl (c + pv))" using pv(2) by (intro dbl_mono) simp
  then show "js_le (Fin c) (damp approx (Fin c) (Fin g) (Fin l) (Fin dt))" by (simp add: d c)
  have "js_le (dbl (c + pv)) (dbl (c + qv))" using pv(3) by (intro dbl_mono) simp
  then show "js_le (damp approx (Fin c) (Fin g) (Fin l) (Fin dt)) (dbl_add (Fin c) (dbl_sub (Fin g) (Fin c)))"
    by (simp add: d f)
qed

lemma damp_between_down:
  assumes "\<forall>x<0. 0 \<le> approx x \<and> approx x \<le> 1" "0 < l" "0 \<le> dt"
    and c: "dbl c = Fin c" and q: "dbl (g - c) = Fin qv" and cg: "g \<le> c"
  shows "js_le (dbl_add (Fin c) (dbl_sub (Fin g) (Fin c))) (damp approx (Fin c) (Fin g) (Fin l) (Fin dt))"
    and "js_le (damp approx (Fin c) (Fin g) (Fin l) (Fin dt)) (Fin c)"
proof -
  obtain tv where tv: "dbl_sub (Fin 1) (Math_exp approx (dbl (- (l * dt)))) = Fin tv" "0 \<le> tv" "tv \<le> 1"
    using damp_blend[OF assms(1-3)] by blast
  have q0: "qv \<le> 0" using _ q by (rule dbl_nonpos_Fin) (use cg in simp)
  have qq: "dbl qv = Fin qv" using q by (rule dbl_idem)
  have "qv * 1 \<le> qv * tv" using q0 tv(3) by (intro mult_left_mono_neg) simp_all
  moreover have "qv * tv \<le> 0" using q0 tv(2) by (simp add: mult_nonpos_nonneg)
  ultimately have "\<exists>pv. dbl (qv * tv) = Fin pv \<and> qv \<le> pv \<and> pv \<le> 0"
    using qq by (intro dbl_between) simp_all
  then obtain pv where pv: "dbl (qv * tv) = Fin pv" "qv \<le> pv" "pv \<le> 0" by blast
  have d: "damp approx (Fin c) (Fin g) (Fin l) (Fin dt) = dbl (c + pv)"
    by (simp add: damp_Fin tv(1) q pv(1))
  have f: "dbl_add (Fin c) (dbl_sub (Fin g) (Fin c)) = dbl (c + qv)"
    by (simp add: full_step_Fin q)
  have "js_le (dbl (c + pv)) (dbl c)" using pv(3) by (intro dbl_mono) simp
  then show "js_le (damp approx (Fin c) (Fin g) (Fin l) (Fin dt)) (Fin c)" by (simp add: d c)
  have "js_le (dbl (c + qv)) (dbl (c + pv))" using pv(2) by (intro dbl_mono) simp
  then show "js_le (dbl_add (Fin c) (dbl_sub (Fin g) (Fin c))) (damp approx (Fin c) (Fin g) (Fin l) (Fin dt))"
    by (simp add: d f)
qed

lemma damp_zero_dt:
  assumes "dbl c = Fin c" "isFinite (dbl_sub (Fin g) (Fin c))"
  shows "damp approx (Fin c) (Fin g) (Fin l) (Fin 0) = Fin c"
proof -
  obtain qv where "dbl (g - c) = Fin qv"
    using assms(2) by (cases "dbl (g - c)") (simp_all add: dbl_sub_def)
  then show ?thesis using assms(1) by (simp add: damp_Fin dbl_sub_def)
qed

lemma tiny_blend:
  assumes "0 \<le> ev" "ev \<le> 1 / 2 ^ 54"
  shows "dbl (1 - ev) = Fin 1"
proof -
  have a: "dbl (1 - 1 / 2 ^ 54) = Fin 1"
    using dbl_tie[of "- 1" "1 - 1 / 2 ^ 54" 9007199254740991] by simp
  have "js_le (dbl (1 - 1 / 2 ^ 54)) (dbl (1 - ev))" using assms(2) by (intro dbl_mono) simp
  then have lo: "js_le (Fin 1) (dbl (1 - ev))" unfolding a .
  have "js_le (dbl (1 - ev)) (dbl 1)" using assms(1) by (intro dbl_mono) simp
  then have hi: "js_le (dbl (1 - ev)) (Fin 1)" by simp
  show ?thesis using lo hi by (cases "dbl (1 - ev)") (auto simp: js_le_def)
qed

lemma saturated_blend:
  assumes "y = NegInf \<or> (\<exists>v. y = Fin v \<and> v \<noteq> 0 \<and> 0 \<le> approx v \<and> approx v \<le> 1 / 2 ^ 54)"
  shows "dbl_sub (Fin 1) (Math_exp approx y) = Fin 1"
proof -
  consider "y = NegInf" | v where "y = Fin v" "v \<noteq> 0" "0 \<le> approx v" "approx v \<le> 1 / 2 ^ 54"
    using assms by blast
  then show ?thesis
  proof cases
    case 1
    then show ?thesis by (simp add: dbl_sub_def)
  next
    case 2
    have p: "dbl (2 powi (- 54)) = Fin (2 powi (- 54))" by (rule dbl_pow2) simp_all
    have "\<exists>ev. dbl (approx v) = Fin ev \<and> 0 \<le> ev \<and> ev \<le> 2 powi (- 54)"
      using _ p by (rule dbl_between) (use 2(3,4) in \<open>simp_all add: power_int_minus_divide\<close>)
    then obtain ev where ev: "dbl (approx v) = Fin ev" "0 \<le> ev" "ev \<le> 1 / 2 ^ 54"
      by (auto simp: power_int_minus_divide)
    show ?thesis using tiny_blend[OF ev(2,3)] 2(1,2) ev(1) by (simp add: dbl_sub_def)
  qed
qed

lemma dbl_mul_one: "dbl_mul (dbl z) (Fin 1) = dbl z"
proof (cases "dbl z")
  case (Fin q)
  then show ?thesis using dbl_idem[OF Fin] by simp
qed simp_all

lemma damp_saturated:
  assumes "dbl_mul (Fin (- l)) (Fin dt) = NegInf
      \<or> (\<exists>v. dbl_mul (Fin (- l)) (Fin dt) = Fin v \<and> v \<noteq> 0 \<and> 0 \<le> approx v \<and> approx v \<le> 1 / 2 ^ 54)"
  shows "damp approx (Fin c) (Fin g) (Fin l) (Fin dt) = dbl_add (Fin c) (dbl_sub (Fin g) (Fin c))"
proof -
  have "dbl_sub (Fin 1) (Math_exp approx (dbl (- (l * dt)))) = Fin 1"
    using assms by (intro saturated_blend) simp
  then show ?thesis by (simp add: damp_Fin full_step_Fin dbl_mul_one)
qed

lemma full_step_exact:
  assumes "dbl g = Fin g" "dbl (g - c) = Fin (g - c)"
  shows "dbl_add (Fin c) (dbl_sub (Fin g) (Fin c)) = Fin g"
  using assms by (simp add: full_step_Fin)

lemma exp_minus_40: "exp (- 40 :: real) \<le> 1 / 2 ^ 54"
proof -
  have "(13 / 8 :: real) \<le> exp (1 / 2)"
    using exp_lower_Taylor_quadratic[of "1 / 2 :: real"] by (simp add: power2_eq_square)
  then have "(13 / 8 :: real) ^ 80 \<le> exp (1 / 2) ^ 80" by (intro power_mono) auto
  also have "exp (1 / 2 :: real) ^ 80 = exp (of_nat 80 * (1 / 2))" by (simp only: exp_of_nat_mult)
  also have "\<dots> = exp 40" by simp
  finally have a: "(13 / 8 :: real) ^ 80 \<le> exp 40" .
  have "(2::real) ^ 54 * 8 ^ 80 \<le> 13 ^ 80" by simp
  then have "(2::real) ^ 54 \<le> 13 ^ 80 / 8 ^ 80" by (simp add: pos_le_divide_eq)
  then have b: "(2::real) ^ 54 \<le> (13 / 8) ^ 80" by (simp only: power_divide)
  have "(2::real) ^ 54 \<le> exp 40" using a b by linarith
  then have "1 / exp (40::real) \<le> 1 / 2 ^ 54" by (intro divide_left_mono) auto
  then show ?thesis by (simp add: exp_minus inverse_eq_divide)
qed

lemma damp_example:
  assumes "0 \<le> approx (- 40)" "approx (- 40) \<le> 1 / 2 ^ 54"
  shows "damp approx (Fin 0) (Fin 10) (Fin 8) (Fin 5) = Fin 10"
proof -
  have a: "dbl (- 40) = Fin (- 40)" using dbl_int[of "- 40"] by simp
  have b: "dbl 10 = Fin 10" using dbl_int[of 10] by simp
  have "damp approx (Fin 0) (Fin 10) (Fin 8) (Fin 5) = dbl_add (Fin 0) (dbl_sub (Fin 10) (Fin 0))"
    by (rule damp_saturated) (use a assms in simp)
  then show ?thesis using b by (simp add: dbl_sub_def)
qed

text \<open>
  Claim C9 as stated fails on doubles. With \<open>dt = 0\<close> the result is not \<open>current\<close> when
  \<^verbatim>\<open>target - current\<close> overflows: from \<open>-2\<^sup>1\<^sup>0\<^sup>2\<^sup>3\<close> towards \<open>2\<^sup>1\<^sup>0\<^sup>2\<^sup>3\<close> the difference is
  \<^verbatim>\<open>Infinity\<close>, its product with the blend factor \<open>0\<close> is \<^verbatim>\<open>NaN\<close>, and so is the result.
  And the result can leave the interval between \<open>current\<close> and \<open>target\<close>: from the
  double \<open>0.2\<close> towards the double \<open>0.05\<close> with \<open>lambda = 8\<close> and \<open>dt = 5\<close> the blend
  factor rounds to \<open>1\<close>, the difference \<^verbatim>\<open>target - current\<close> is rounded, and the result
  \<open>0.04999999999999999\<close> is below the target.
\<close>

theorem damp_rounding_counterexample:
  "dbl (2 ^ 1023) = Fin (2 ^ 1023)
   \<and> damp exp (Fin (- (2 ^ 1023))) (Fin (2 ^ 1023)) (Fin 8) (Fin 0) = NaN
   \<and> dbl (3602879701896397 / 2 ^ 54) = Fin (3602879701896397 / 2 ^ 54)
   \<and> dbl (3602879701896397 / 2 ^ 56) = Fin (3602879701896397 / 2 ^ 56)
   \<and> damp exp (Fin (3602879701896397 / 2 ^ 54)) (Fin (3602879701896397 / 2 ^ 56)) (Fin 8) (Fin 5)
       = Fin (900719925474099 / 2 ^ 54)
   \<and> (900719925474099 / 2 ^ 54 :: real) < 3602879701896397 / 2 ^ 56
   \<and> (3602879701896397 / 2 ^ 56 :: real) < 3602879701896397 / 2 ^ 54"
proof -
  have big: "dbl (2 ^ 1023) = Fin (2 ^ 1023)" using dbl_pow2[of 1023] by simp
  have "rd (2 powi 1024) = 2 powi 1024" by (rule rd_pow2) simp
  then have inf: "dbl (2 ^ 1024) = PosInf" by (simp add: dbl_def)
  have nan: "damp exp (Fin (- (2 ^ 1023))) (Fin (2 ^ 1023)) (Fin 8) (Fin 0) = NaN"
    using inf by (simp add: damp_Fin dbl_sub_def)
  have c: "dbl (3602879701896397 / 2 ^ 54) = Fin (3602879701896397 / 2 ^ 54)"
    using dbl_near[of "- 3" "3602879701896397 / 2 ^ 54" 7205759403792794] by simp
  have g: "dbl (3602879701896397 / 2 ^ 56) = Fin (3602879701896397 / 2 ^ 56)"
    using dbl_near[of "- 5" "3602879701896397 / 2 ^ 56" 7205759403792794] by simp
  have m40: "dbl (- 40) = Fin (- 40)" using dbl_int[of "- 40"] by simp
  have e40: "0 \<le> exp (- 40 :: real) \<and> exp (- 40 :: real) \<le> 1 / 2 ^ 54"
    using exp_minus_40 by simp
  have sat: "damp exp (Fin (3602879701896397 / 2 ^ 54)) (Fin (3602879701896397 / 2 ^ 56)) (Fin 8) (Fin 5)
      = dbl_add (Fin (3602879701896397 / 2 ^ 54))
          (dbl_sub (Fin (3602879701896397 / 2 ^ 56)) (Fin (3602879701896397 / 2 ^ 54)))"
    by (rule damp_saturated) (use m40 e40 in simp)
  have q: "dbl (3602879701896397 / 2 ^ 56 - 3602879701896397 / 2 ^ 54) = Fin (- (1351079888211149 / 2 ^ 53))"
    using dbl_tie[of "- 3" "3602879701896397 / 2 ^ 56 - 3602879701896397 / 2 ^ 54" "- 5404319552844596"]
    by simp
  have r: "dbl (3602879701896397 / 2 ^ 54 - 1351079888211149 / 2 ^ 53) = Fin (900719925474099 / 2 ^ 54)"
    using dbl_near[of "- 5" "3602879701896397 / 2 ^ 54 - 1351079888211149 / 2 ^ 53" 7205759403792792]
    by simp
  have res: "damp exp (Fin (3602879701896397 / 2 ^ 54)) (Fin (3602879701896397 / 2 ^ 56)) (Fin 8) (Fin 5)
       = Fin (900719925474099 / 2 ^ 54)"
    unfolding sat using q r by (simp add: dbl_sub_def)
  show ?thesis using big nan c g res by simp
qed

text \<open>
  Claim C9, amended. \<open>damp\<close> and \<open>smoothValue\<close> compute the same value. For finite
  arguments, with \<open>current\<close> a double:
  with \<open>dt = 0\<close> the result is \<open>current\<close> when \<^verbatim>\<open>target - current\<close> does not overflow;
  for \<open>lambda > 0\<close> and \<open>dt \<ge> 0\<close>, when the runtime's exponential of a negative number
  lies in \<open>[0, 1]\<close> and \<^verbatim>\<open>target - current\<close> does not overflow, the result lies between
  \<open>current\<close> and the full step \<^verbatim>\<open>current + (target - current)\<close>, which is \<open>target\<close> when
  the difference is a double;
  once the exponential of \<^verbatim>\<open>-lambda * dt\<close> is at most \<open>2\<^sup>-\<^sup>5\<^sup>4\<close> the blend factor is \<open>1\<close> and the
  result is the full step;
  and from \<open>0\<close> towards \<open>10\<close> with \<open>lambda = 8\<close> and \<open>dt = 5\<close> the result is \<open>10\<close>.
\<close>

theorem damp_properties:
  "smoothValue approx (Fin c) (Fin g) (Fin l) (Fin dt) = damp approx (Fin c) (Fin g) (Fin l) (Fin dt)
   \<and> (dbl c = Fin c \<and> isFinite (dbl_sub (Fin g) (Fin c)) \<longrightarrow>
        damp approx (Fin c) (Fin g) (Fin l) (Fin 0) = Fin c)
   \<and> (0 < l \<and> 0 \<le> dt \<and> (\<forall>x<0. 0 \<le> approx x \<and> approx x \<le> 1)
        \<and> dbl c = Fin c \<and> isFinite (dbl_sub (Fin g) (Fin c)) \<longrightarrow>
        (c \<le> g \<longrightarrow>
           js_le (Fin c) (damp approx (Fin c) (Fin g) (Fin l) (Fin dt))
         \<and> js_le (damp approx (Fin c) (Fin g) (Fin l) (Fin dt))
                 (dbl_add (Fin c) (dbl_sub (Fin g) (Fin c))))
      \<and> (g \<le> c \<longrightarrow>
           js_le (dbl_add (Fin c) (dbl_sub (Fin g) (Fin c)))
                 (damp approx (Fin c) (Fin g) (Fin l) (Fin dt))
         \<and> js_le (damp approx (Fin c) (Fin g) (Fin l) (Fin dt)) (Fin c)))
   \<and> (dbl g = Fin g \<and> dbl (g - c) = Fin (g - c) \<longrightarrow>
        dbl_add (Fin c) (dbl_sub (Fin g) (Fin c)) = Fin g)
   \<and> (dbl_mul (Fin (- l)) (Fin dt) = NegInf
        \<or> (\<exists>v. dbl_mul (Fin (- l)) (Fin dt) = Fin v \<and> v \<noteq> 0
                \<and> 0 \<le> approx v \<and> approx v \<le> 1 / 2 ^ 54) \<longrightarrow>
        damp approx (Fin c) (Fin g) (Fin l) (Fin dt) = dbl_add (Fin c) (dbl_sub (Fin g) (Fin c)))
   \<and> (0 \<le> approx (- 40) \<and> approx (- 40) \<le> 1 / 2 ^ 54 \<longrightarrow>
        damp approx (Fin 0) (Fin 10) (Fin 8) (Fin 5) = Fin 10)"
proof -
  have a: "smoothValue approx (Fin c) (Fin g) (Fin l) (Fin dt) = damp approx (Fin c) (Fin g) (Fin l) (Fin dt)"
    by (rule smoothValue_damp)
  have b: "dbl c = Fin c \<and> isFinite (dbl_sub (Fin g) (Fin c)) \<longrightarrow>
        damp approx (Fin c) (Fin g) (Fin l) (Fin 0) = Fin c"
    using damp_zero_dt[of c g approx l] by blast
  have c: "0 < l \<and> 0 \<le> dt \<and> (\<forall>x<0. 0 \<le> approx x \<and> approx x \<le> 1)
        \<and> dbl c = Fin c \<and> isFinite (dbl_sub (Fin g) (Fin c)) \<longrightarrow>
        (c \<le> g \<longrightarrow>
           js_le (Fin c) (damp approx (Fin c) (Fin g) (Fin l) (Fin dt))
         \<and> js_le (damp approx (Fin c) (Fin g) (Fin l) (Fin dt))
                 (dbl_add (Fin c) (dbl_sub (Fin g) (Fin c))))
      \<and> (g \<le> c \<longrightarrow>
           js_le (dbl_add (Fin c) (dbl_sub (Fin g) (Fin c)))
                 (damp approx (Fin c) (Fin g) (Fin l) (Fin dt))
         \<and> js_le (damp approx (Fin c) (Fin g) (Fin l) (Fin dt)) (Fin c))"
  proof (intro impI conjI)
    assume h: "0 < l \<and> 0 \<le> dt \<and> (\<forall>x<0. 0 \<le> approx x \<and> approx x \<le> 1)
        \<and> dbl c = Fin c \<and> isFinite (dbl_sub (Fin g) (Fin c))"
    then obtain qv where q: "dbl (g - c) = Fin qv"
      by (cases "dbl (g - c)") (simp_all add: dbl_sub_def)
    note H = h[THEN conjunct2, THEN conjunct2, THEN conjunct1]
      h[THEN conjunct1] h[THEN conjunct2, THEN conjunct1]
      h[THEN conjunct2, THEN conjunct2, THEN conjunct2, THEN conjunct1] q
    {
      assume cg: "c \<le> g"
      show "js_le (Fin c) (damp approx (Fin c) (Fin g) (Fin l) (Fin dt))"
        using H cg by (rule damp_between_up(1))
      show "js_le (damp approx (Fin c) (Fin g) (Fin l) (Fin dt))
                 (dbl_add (Fin c) (dbl_sub (Fin g) (Fin c)))"
        using H cg by (rule damp_between_up(2))
    }
    {
      assume gc: "g \<le> c"
      show "js_le (dbl_add (Fin c) (dbl_sub (Fin g) (Fin c)))
                 (damp approx (Fin c) (Fin g) (Fin l) (Fin dt))"
        using H gc by (rule damp_between_down(1))
      show "js_le (damp approx (Fin c) (Fin g) (Fin l) (Fin dt)) (Fin c)"
        using H gc by (rule damp_between_down(2))
    }
  qed
  have d: "dbl g = Fin g \<and> dbl (g - c) = Fin (g - c) \<longrightarrow>
        dbl_add (Fin c) (dbl_sub (Fin g) (Fin c)) = Fin g"
    using full_step_exact[of g c] by blast
  have e: "dbl_mul (Fin (- l)) (Fin dt) = NegInf
        \<or> (\<exists>v. dbl_mul (Fin (- l)) (Fin dt) = Fin v \<and> v \<noteq> 0
                \<and> 0 \<le> approx v \<and> approx v \<le> 1 / 2 ^ 54) \<longrightarrow>
        damp approx (Fin c) (Fin g) (Fin l) (Fin dt) = dbl_add (Fin c) (dbl_sub (Fin g) (Fin c))"
    using damp_saturated[of l dt approx c g] by blast
  have f: "0 \<le> approx (- 40) \<and> approx (- 40) \<le> 1 / 2 ^ 54 \<longrightarrow>
        damp approx (Fin 0) (Fin 10) (Fin 8) (Fin 5) = Fin 10"
    using damp_example[of approx] by blast
  show ?thesis using a b c d e f by blast
qed

theorem damp_properties_witness:
  "(0::real) < 8 \<and> (0::real) \<le> 5
   \<and> dbl 0 = Fin 0 \<and> isFinite (dbl_sub (Fin 10) (Fin 0)) \<and> dbl 10 = Fin 10
   \<and> 0 \<le> exp (- 40 :: real) \<and> exp (- 40 :: real) \<le> 1 / 2 ^ 54
   \<and> damp exp (Fin 0) (Fin 10) (Fin 8) (Fin 0) = Fin 0
   \<and> js_le (Fin 0) (damp exp (Fin 0) (Fin 10) (Fin 8) (Fin 5))
   \<and> js_le (damp exp (Fin 0) (Fin 10) (Fin 8) (Fin 5)) (Fin 10)
   \<and> damp exp (Fin 0) (Fin 10) (Fin 8) (Fin 5) = Fin 10
   \<and> smoothValue exp (Fin 0) (Fin 10) (Fin 8) (Fin 5) = Fin 10"
proof -
  have ten: "dbl 10 = Fin 10" using dbl_int[of 10] by simp
  have fin: "isFinite (dbl_sub (Fin 10) (Fin 0))" using ten by (simp add: dbl_sub_def)
  have e40: "0 \<le> exp (- 40 :: real) \<and> exp (- 40 :: real) \<le> 1 / 2 ^ 54"
    using exp_minus_40 by simp
  have rng: "\<forall>x<0. 0 \<le> exp x \<and> exp x \<le> (1::real)" by simp
  have full: "dbl_add (Fin 0) (dbl_sub (Fin 10) (Fin 0)) = Fin 10"
    using ten by (simp add: dbl_sub_def)
  note T = damp_properties[of exp 0 10 8 5]
  have z: "damp exp (Fin 0) (Fin 10) (Fin 8) (Fin 0) = Fin 0"
    using T fin by simp
  have v: "damp exp (Fin 0) (Fin 10) (Fin 8) (Fin 5) = Fin 10"
    using T e40 by blast
  have s: "smoothValue exp (Fin 0) (Fin 10) (Fin 8) (Fin 5) = Fin 10"
    using T v by simp
  have lo: "js_le (Fin 0) (damp exp (Fin 0) (Fin 10) (Fin 8) (Fin 5))"
    using T rng fin by simp
  have hi: "js_le (damp exp (Fin 0) (Fin 10) (Fin 8) (Fin 5)) (Fin 10)"
    using T rng fin full by simp
  show ?thesis using ten fin e40 z v s lo hi by simp
qed

section \<open>The visual-state schema\<close>

lemma z_number_transfer: "z_number ok1 v = Some n \<Longrightarrow> ok2 n \<Longrightarrow> z_number ok2 v = Some n"
  by (cases v) (auto simp: z_number_def split: if_splits)

lemma z_number_accepted: "z_number ok v = Some n \<Longrightarrow> ok n"
  by (cases v) (auto simp: z_number_def split: if_splits)

lemma z_number_JNum: "ok n \<Longrightarrow> z_number ok (JNum n) = Some n"
  by (simp add: z_number_def)

lemma z_opt_number_transfer:
  "z_optional (z_number ok1) v = Some n \<Longrightarrow> list_all ok2 (opt_numbers n) \<Longrightarrow>
   z_optional (z_number ok2) v = Some n"
  by (cases n; cases v) (auto simp: z_optional_def z_number_def split: if_splits)

lemma z_opt_number_accepted:
  "z_optional (z_number ok) v = Some n \<Longrightarrow> list_all ok (opt_numbers n)"
  by (cases n; cases v) (auto simp: z_optional_def z_number_def split: if_splits)

lemma z_opt_number_js: "list_all ok (opt_numbers n) \<Longrightarrow> z_optional (z_number ok) (js_opt JNum n) = Some n"
  by (cases n) (auto simp: z_optional_def z_number_def js_opt_def)

lemma z_opt_string_js: "z_optional z_string (js_opt JStr n) = Some n"
  by (cases n) (auto simp: z_optional_def z_string_def js_opt_def)

lemma vec3Schema_Some:
  "vec3Schema ok v = Some p \<longleftrightarrow>
     (\<exists>a b c. v = JArr [a, b, c]
        \<and> z_number ok a = Some (fst p) \<and> z_number ok b = Some (fst (snd p))
        \<and> z_number ok c = Some (snd (snd p)))"
proof (cases v)
  case (JArr xs)
  show ?thesis
  proof (cases xs)
    case Nil
    then show ?thesis using JArr by (simp add: vec3Schema_def)
  next
    case (Cons a ys)
    note c1 = this
    show ?thesis
    proof (cases ys)
      case Nil
      then show ?thesis using JArr c1 by (simp add: vec3Schema_def)
    next
      case (Cons b zs)
      note c2 = this
      show ?thesis
      proof (cases zs)
        case Nil
        then show ?thesis using JArr c1 c2 by (simp add: vec3Schema_def)
      next
        case (Cons c ws)
        show ?thesis
        proof (cases ws)
          case Nil
          then show ?thesis using JArr c1 c2 Cons
            by (cases p) (auto simp: vec3Schema_def bind_eq_Some_conv)
        next
          case (Cons d us)
          then show ?thesis using JArr c1 c2 \<open>zs = c # ws\<close> by (simp add: vec3Schema_def)
        qed
      qed
    qed
  qed
qed (simp_all add: vec3Schema_def)

lemma vec3Schema_transfer:
  "vec3Schema ok1 v = Some p \<Longrightarrow> list_all ok2 (vec3_numbers p) \<Longrightarrow> vec3Schema ok2 v = Some p"
  by (cases p) (auto simp: vec3Schema_Some intro: z_number_transfer)

lemma vec3Schema_accepted: "vec3Schema ok v = Some p \<Longrightarrow> list_all ok (vec3_numbers p)"
  by (cases p) (auto simp: vec3Schema_Some dest: z_number_accepted)

lemma vec3Schema_js: "list_all ok (vec3_numbers p) \<Longrightarrow> vec3Schema ok (js_of_vec3 p) = Some p"
  by (cases p) (auto simp: vec3Schema_Some z_number_JNum)


lemma z_string_min1_Some: "z_string_min1 v = Some i \<longleftrightarrow> v = JStr i \<and> i \<noteq> []"
  by (cases v; cases i) (auto simp: z_string_min1_def)

lemma z_string_Some: "z_string v = Some i \<longleftrightarrow> v = JStr i"
  by (cases v) (auto simp: z_string_def)

lemma z_enum_shape_name: "z_enum_shape (JStr (shape_name s)) = Some s"
  by (cases s) (simp_all add: z_enum_shape_def)

lemma z_enum_loop_name: "z_enum_loop (JStr (loop_name s)) = Some s"
  by (cases s) (simp_all add: z_enum_loop_def)

lemma z_enum_flow_name: "z_enum_flow (JStr (flow_name s)) = Some s"
  by (cases s) (simp_all add: z_enum_flow_def)

lemma nodeSchema_Some:
  "nodeSchema ok v = Some n \<longleftrightarrow>
     (\<exists>obj. v = JObj obj
        \<and> z_string_min1 (js_get obj ''id'') = Some (VisualNode.id n)
        \<and> z_enum_shape (js_get obj ''shape'') = Some (shape n)
        \<and> vec3Schema ok (js_get obj ''pos'') = Some (VisualNode.pos n)
        \<and> z_string (js_get obj ''color'') = Some (VisualNode.color n)
        \<and> z_number ok (js_get obj ''intensity'') = Some (VisualNode.intensity n)
        \<and> z_number ok (js_get obj ''opacity'') = Some (opacity n)
        \<and> z_optional (z_number ok) (js_get obj ''scale'') = Some (scale n))"
  by (cases n; cases v) (auto simp: nodeSchema_def z_object_def bind_eq_Some_conv)

lemma nodeSchema_transfer:
  assumes "nodeSchema ok1 v = Some n" "list_all ok2 (node_numbers n)"
  shows "nodeSchema ok2 v = Some n"
  using assms unfolding nodeSchema_Some node_numbers_def
  by (auto intro: vec3Schema_transfer z_number_transfer z_opt_number_transfer)

lemma nodeSchema_accepted:
  assumes "nodeSchema ok v = Some n"
  shows "list_all ok (node_numbers n) \<and> VisualNode.id n \<noteq> []"
  using assms unfolding nodeSchema_Some node_numbers_def
  by (auto simp: z_string_min1_Some dest: vec3Schema_accepted z_number_accepted z_opt_number_accepted)

lemma nodeSchema_js:
  assumes "list_all ok (node_numbers n)" "VisualNode.id n \<noteq> []"
  shows "nodeSchema ok (js_of_node n) = Some n"
  using assms unfolding nodeSchema_Some node_numbers_def js_of_node_def
  by (simp add: js_get_def z_string_min1_Some z_string_Some z_enum_shape_name vec3Schema_js
      z_number_JNum z_opt_number_js)


lemma loopSchema_Some:
  "loopSchema ok v = Some l \<longleftrightarrow>
     (\<exists>obj. v = JObj obj
        \<and> z_string_min1 (js_get obj ''id'') = Some (VisualLoop.id l)
        \<and> z_enum_loop (js_get obj ''type'') = Some (VisualLoop.type l)
        \<and> vec3Schema ok (js_get obj ''center'') = Some (center l)
        \<and> z_number ok (js_get obj ''radius'') = Some (radius l)
        \<and> z_number ok (js_get obj ''intensity'') = Some (VisualLoop.intensity l)
        \<and> z_number ok (js_get obj ''flowSpeed'') = Some (flowSpeed l)
        \<and> z_optional (z_number ok) (js_get obj ''bottleneck'') = Some (bottleneck l)
        \<and> z_optional (z_number ok) (js_get obj ''delay'') = Some (delay l))"
  by (cases l; cases v) (auto simp: loopSchema_def z_object_def bind_eq_Some_conv)

lemma loopSchema_transfer:
  assumes "loopSchema ok1 v = Some l" "list_all ok2 (loop_numbers l)"
  shows "loopSchema ok2 v = Some l"
  using assms unfolding loopSchema_Some loop_numbers_def
  by (auto intro: vec3Schema_transfer z_number_transfer z_opt_number_transfer)

lemma loopSchema_accepted:
  assumes "loopSchema ok v = Some l"
  shows "list_all ok (loop_numbers l) \<and> VisualLoop.id l \<noteq> []"
  using assms unfolding loopSchema_Some loop_numbers_def
  by (auto simp: z_string_min1_Some dest: vec3Schema_accepted z_number_accepted z_opt_number_accepted)

lemma loopSchema_js:
  assumes "list_all ok (loop_numbers l)" "VisualLoop.id l \<noteq> []"
  shows "loopSchema ok (js_of_loop l) = Some l"
  using assms unfolding loopSchema_Some loop_numbers_def js_of_loop_def
  by (simp add: js_get_def z_string_min1_Some z_enum_loop_name vec3Schema_js
      z_number_JNum z_opt_number_js)

lemma leverSchema_Some:
  "leverSchema ok v = Some l \<longleftrightarrow>
     (\<exists>obj. v = JObj obj
        \<and> z_string_min1 (js_get obj ''id'') = Some (VisualLever.id l)
        \<and> z_string_min1 (js_get obj ''target'') = Some (target l)
        \<and> vec3Schema ok (js_get obj ''pos'') = Some (VisualLever.pos l)
        \<and> z_number ok (js_get obj ''strength'') = Some (strength l))"
  by (cases l; cases v) (auto simp: leverSchema_def z_object_def bind_eq_Some_conv)

lemma leverSchema_transfer:
  assumes "leverSchema ok1 v = Some l" "list_all ok2 (lever_numbers l)"
  shows "leverSchema ok2 v = Some l"
  using assms unfolding leverSchema_Some lever_numbers_def
  by (auto intro: vec3Schema_transfer z_number_transfer)

lemma leverSchema_accepted:
  assumes "leverSchema ok v = Some l"
  shows "list_all ok (lever_numbers l) \<and> VisualLever.id l \<noteq> [] \<and> target l \<noteq> []"
  using assms unfolding leverSchema_Some lever_numbers_def
  by (auto simp: z_string_min1_Some dest: vec3Schema_accepted z_number_accepted)

lemma leverSchema_js:
  assumes "list_all ok (lever_numbers l)" "VisualLever.id l \<noteq> [] \<and> target l \<noteq> []"
  shows "leverSchema ok (js_of_lever l) = Some l"
  using assms unfolding leverSchema_Some lever_numbers_def js_of_lever_def
  by (simp add: js_get_def z_string_min1_Some vec3Schema_js z_number_JNum)

lemma flowSchema_Some:
  "flowSchema ok v = Some f \<longleftrightarrow>
     (\<exists>obj. v = JObj obj
        \<and> z_string_min1 (js_get obj ''id'') = Some (VisualFlow.id f)
        \<and> z_string_min1 (js_get obj ''from'') = Some (from f)
        \<and> z_string_min1 (js_get obj ''to'') = Some (to f)
        \<and> z_enum_flow (js_get obj ''type'') = Some (VisualFlow.type f)
        \<and> z_number ok (js_get obj ''speed'') = Some (VisualFlow.speed f)
        \<and> z_optional (z_number ok) (js_get obj ''intensity'') = Some (VisualFlow.intensity f)
        \<and> z_optional z_string (js_get obj ''color'') = Some (VisualFlow.color f))"
  by (cases f; cases v) (auto simp: flowSchema_def z_object_def bind_eq_Some_conv)

lemma flowSchema_transfer:
  assumes "flowSchema ok1 v = Some f" "list_all ok2 (flow_numbers f)"
  shows "flowSchema ok2 v = Some f"
  using assms unfolding flowSchema_Some flow_numbers_def
  by (auto intro: z_number_transfer z_opt_number_transfer)

lemma flowSchema_accepted:
  assumes "flowSchema ok v = Some f"
  shows "list_all ok (flow_numbers f) \<and> flow_ids_ok f"
  using assms unfolding flowSchema_Some flow_numbers_def flow_ids_ok_def
  by (auto simp: z_string_min1_Some dest: z_number_accepted z_opt_number_accepted)

lemma flowSchema_js:
  assumes "list_all ok (flow_numbers f)" "flow_ids_ok f"
  shows "flowSchema ok (js_of_flow f) = Some f"
  using assms unfolding flowSchema_Some flow_numbers_def js_of_flow_def flow_ids_ok_def
  by (simp add: js_get_def z_string_min1_Some z_enum_flow_name z_number_JNum z_opt_number_js
      z_opt_string_js)

lemma fieldSchema_Some:
  "fieldSchema ok v = Some f \<longleftrightarrow>
     (\<exists>obj. v = JObj obj
        \<and> z_number ok (js_get obj ''chaos'') = Some (chaos f)
        \<and> z_number ok (js_get obj ''density'') = Some (density f)
        \<and> z_number ok (js_get obj ''noiseAmp'') = Some (noiseAmp f))"
  by (cases f; cases v) (auto simp: fieldSchema_def z_object_def bind_eq_Some_conv)

lemma fieldSchema_transfer:
  assumes "fieldSchema ok1 v = Some f" "list_all ok2 (field_numbers f)"
  shows "fieldSchema ok2 v = Some f"
  using assms unfolding fieldSchema_Some field_numbers_def
  by (auto intro: z_number_transfer)

lemma fieldSchema_accepted:
  assumes "fieldSchema ok v = Some f"
  shows "list_all ok (field_numbers f)"
  using assms unfolding fieldSchema_Some field_numbers_def
  by (auto dest: z_number_accepted)

lemma fieldSchema_js:
  assumes "list_all ok (field_numbers f)"
  shows "fieldSchema ok (js_of_field f) = Some f"
  using assms unfolding fieldSchema_Some field_numbers_def js_of_field_def
  by (simp add: js_get_def z_number_JNum)


lemma z_elements_transfer:
  assumes "\<And>v a. p1 v = Some a \<Longrightarrow> list_all ok2 (nums a) \<Longrightarrow> p2 v = Some a"
  shows "z_elements p1 vs = Some xs \<Longrightarrow> list_all ok2 (concat (map nums xs)) \<Longrightarrow>
         z_elements p2 vs = Some xs"
proof (induction vs arbitrary: xs)
  case Nil
  then show ?case by simp
next
  case (Cons v vs)
  from Cons.prems(1) obtain a as where a: "p1 v = Some a" "z_elements p1 vs = Some as" "xs = a # as"
    by (auto simp: bind_eq_Some_conv)
  have "p2 v = Some a" using assms[OF a(1)] Cons.prems(2) a(3) by simp
  moreover have "z_elements p2 vs = Some as" using Cons.IH[OF a(2)] Cons.prems(2) a(3) by simp
  ultimately show ?case using a(3) by simp
qed

lemma z_elements_all:
  assumes "\<And>v a. p v = Some a \<Longrightarrow> Q a"
  shows "z_elements p vs = Some xs \<Longrightarrow> list_all Q xs"
proof (induction vs arbitrary: xs)
  case Nil
  then show ?case by simp
next
  case (Cons v vs)
  from Cons.prems(1) obtain a as where a: "p v = Some a" "z_elements p vs = Some as" "xs = a # as"
    by (auto simp: bind_eq_Some_conv)
  show ?case using assms[OF a(1)] Cons.IH[OF a(2)] a(3) by simp
qed

lemma z_elements_js:
  "list_all (\<lambda>x. p (enc x) = Some x) xs \<Longrightarrow> z_elements p (map enc xs) = Some xs"
  by (induction xs) auto

lemma list_all_concat: "list_all P (concat (map f xs)) = list_all (\<lambda>x. list_all P (f x)) xs"
  by (induction xs) auto

lemma z_array_Some: "z_array p v = Some xs \<longleftrightarrow> (\<exists>vs. v = JArr vs \<and> z_elements p vs = Some xs)"
  by (cases v) (auto simp: z_array_def)

lemma z_optional_Some:
  "z_optional p v = Some r \<longleftrightarrow>
     (v = JUndefined \<and> r = None) \<or> (v \<noteq> JUndefined \<and> (\<exists>a. r = Some a \<and> p v = Some a))"
  by (cases v) (auto simp: z_optional_def)

lemma visualStateSchema_Some:
  "visualStateSchema ok v = Some r \<longleftrightarrow>
     (\<exists>obj. v = JObj obj
        \<and> z_optional (z_number ok) (js_get obj ''t'') = Some (VisualState.t r)
        \<and> z_optional z_string (js_get obj ''focus'') = Some (focus r)
        \<and> z_array (nodeSchema ok) (js_get obj ''nodes'') = Some (nodes r)
        \<and> z_array (loopSchema ok) (js_get obj ''loops'') = Some (loops r)
        \<and> z_array (leverSchema ok) (js_get obj ''levers'') = Some (levers r)
        \<and> z_optional (z_array (flowSchema ok)) (js_get obj ''flows'') = Some (flows r)
        \<and> z_optional (fieldSchema ok) (js_get obj ''field'') = Some (field r))"
  by (cases r; cases v) (auto simp: visualStateSchema_def z_object_def bind_eq_Some_conv)

lemma nodes_transfer:
  "z_array (nodeSchema ok1) v = Some xs \<Longrightarrow> list_all ok2 (concat (map node_numbers xs)) \<Longrightarrow>
   z_array (nodeSchema ok2) v = Some xs"
  unfolding z_array_Some using z_elements_transfer[of "nodeSchema ok1" ok2 node_numbers "nodeSchema ok2"]
  by (blast intro: nodeSchema_transfer)

lemma loops_transfer:
  "z_array (loopSchema ok1) v = Some xs \<Longrightarrow> list_all ok2 (concat (map loop_numbers xs)) \<Longrightarrow>
   z_array (loopSchema ok2) v = Some xs"
  unfolding z_array_Some using z_elements_transfer[of "loopSchema ok1" ok2 loop_numbers "loopSchema ok2"]
  by (blast intro: loopSchema_transfer)

lemma levers_transfer:
  "z_array (leverSchema ok1) v = Some xs \<Longrightarrow> list_all ok2 (concat (map lever_numbers xs)) \<Longrightarrow>
   z_array (leverSchema ok2) v = Some xs"
  unfolding z_array_Some using z_elements_transfer[of "leverSchema ok1" ok2 lever_numbers "leverSchema ok2"]
  by (blast intro: leverSchema_transfer)

lemma flows_transfer:
  "z_array (flowSchema ok1) v = Some xs \<Longrightarrow> list_all ok2 (concat (map flow_numbers xs)) \<Longrightarrow>
   z_array (flowSchema ok2) v = Some xs"
  unfolding z_array_Some using z_elements_transfer[of "flowSchema ok1" ok2 flow_numbers "flowSchema ok2"]
  by (blast intro: flowSchema_transfer)

lemma visualStateSchema_transfer:
  assumes "visualStateSchema ok1 v = Some r" "list_all ok2 (state_numbers r)"
  shows "visualStateSchema ok2 v = Some r"
proof -
  from assms(1) obtain obj where obj: "v = JObj obj"
    and tv: "z_optional (z_number ok1) (js_get obj ''t'') = Some (VisualState.t r)"
    and fo: "z_optional z_string (js_get obj ''focus'') = Some (focus r)"
    and ns: "z_array (nodeSchema ok1) (js_get obj ''nodes'') = Some (nodes r)"
    and ls: "z_array (loopSchema ok1) (js_get obj ''loops'') = Some (loops r)"
    and lv: "z_array (leverSchema ok1) (js_get obj ''levers'') = Some (levers r)"
    and fl: "z_optional (z_array (flowSchema ok1)) (js_get obj ''flows'') = Some (flows r)"
    and fd: "z_optional (fieldSchema ok1) (js_get obj ''field'') = Some (field r)"
    unfolding visualStateSchema_Some by blast
  have n: "list_all ok2 (opt_numbers (VisualState.t r))"
      "list_all ok2 (concat (map node_numbers (nodes r)))"
      "list_all ok2 (concat (map loop_numbers (loops r)))"
      "list_all ok2 (concat (map lever_numbers (levers r)))"
      "list_all ok2 (case flows r of None \<Rightarrow> [] | Some fs \<Rightarrow> concat (map flow_numbers fs))"
      "list_all ok2 (case field r of None \<Rightarrow> [] | Some f \<Rightarrow> field_numbers f)"
    using assms(2) by (simp_all add: state_numbers_def)
  have tv': "z_optional (z_number ok2) (js_get obj ''t'') = Some (VisualState.t r)"
    using z_opt_number_transfer[OF tv n(1)] .
  have ns': "z_array (nodeSchema ok2) (js_get obj ''nodes'') = Some (nodes r)"
    using nodes_transfer[OF ns n(2)] .
  have ls': "z_array (loopSchema ok2) (js_get obj ''loops'') = Some (loops r)"
    using loops_transfer[OF ls n(3)] .
  have lv': "z_array (leverSchema ok2) (js_get obj ''levers'') = Some (levers r)"
    using levers_transfer[OF lv n(4)] .
  have fl': "z_optional (z_array (flowSchema ok2)) (js_get obj ''flows'') = Some (flows r)"
    using fl n(5) unfolding z_optional_Some by (auto intro: flows_transfer)
  have fd': "z_optional (fieldSchema ok2) (js_get obj ''field'') = Some (field r)"
    using fd n(6) unfolding z_optional_Some by (auto intro: fieldSchema_transfer)
  show ?thesis unfolding visualStateSchema_Some using obj tv' fo ns' ls' lv' fl' fd' by blast
qed

lemma visualStateSchema_accepted:
  assumes "visualStateSchema ok v = Some r"
  shows "list_all ok (state_numbers r) \<and> ids_nonempty r"
proof -
  from assms(1) obtain obj where obj: "v = JObj obj"
    and tv: "z_optional (z_number ok) (js_get obj ''t'') = Some (VisualState.t r)"
    and ns: "z_array (nodeSchema ok) (js_get obj ''nodes'') = Some (nodes r)"
    and ls: "z_array (loopSchema ok) (js_get obj ''loops'') = Some (loops r)"
    and lv: "z_array (leverSchema ok) (js_get obj ''levers'') = Some (levers r)"
    and fl: "z_optional (z_array (flowSchema ok)) (js_get obj ''flows'') = Some (flows r)"
    and fd: "z_optional (fieldSchema ok) (js_get obj ''field'') = Some (field r)"
    unfolding visualStateSchema_Some by blast
  have a: "list_all ok (opt_numbers (VisualState.t r))" using z_opt_number_accepted[OF tv] .
  have b: "list_all (\<lambda>n. list_all ok (node_numbers n) \<and> VisualNode.id n \<noteq> []) (nodes r)"
    using ns unfolding z_array_Some
    by (auto intro: z_elements_all[of "nodeSchema ok"] dest: nodeSchema_accepted)
  have c: "list_all (\<lambda>n. list_all ok (loop_numbers n) \<and> VisualLoop.id n \<noteq> []) (loops r)"
    using ls unfolding z_array_Some
    by (auto intro: z_elements_all[of "loopSchema ok"] dest: loopSchema_accepted)
  have d: "list_all (\<lambda>n. list_all ok (lever_numbers n) \<and> VisualLever.id n \<noteq> [] \<and> target n \<noteq> []) (levers r)"
    using lv unfolding z_array_Some
    by (auto intro: z_elements_all[of "leverSchema ok"] dest: leverSchema_accepted)
  have e: "case flows r of None \<Rightarrow> True
           | Some fs \<Rightarrow> list_all (\<lambda>n. list_all ok (flow_numbers n) \<and> flow_ids_ok n) fs"
  proof (cases "flows r")
    case None
    then show ?thesis by simp
  next
    case (Some fs)
    then obtain vs where "z_elements (flowSchema ok) vs = Some fs"
      using fl unfolding z_optional_Some z_array_Some by auto
    then have "list_all (\<lambda>n. list_all ok (flow_numbers n) \<and> flow_ids_ok n) fs"
      by (rule z_elements_all[of "flowSchema ok", rotated]) (rule flowSchema_accepted)
    then show ?thesis using Some by simp
  qed
  have f: "list_all ok (case field r of None \<Rightarrow> [] | Some f \<Rightarrow> field_numbers f)"
    using fd unfolding z_optional_Some by (auto dest: fieldSchema_accepted)
  have e1: "list_all ok (case flows r of None \<Rightarrow> [] | Some fs \<Rightarrow> concat (map flow_numbers fs))"
    using e by (cases "flows r") (auto simp: list_all_concat list_all_iff)
  have e2: "case flows r of None \<Rightarrow> True | Some fs \<Rightarrow> list_all flow_ids_ok fs"
    using e by (cases "flows r") (auto simp: list_all_iff)
  have b': "list_all ok (concat (map node_numbers (nodes r)))"
    using b by (simp add: list_all_concat list_all_iff)
  have c': "list_all ok (concat (map loop_numbers (loops r)))"
    using c by (simp add: list_all_concat list_all_iff)
  have d': "list_all ok (concat (map lever_numbers (levers r)))"
    using d by (simp add: list_all_concat list_all_iff)
  have nums: "list_all ok (state_numbers r)"
    by (simp add: state_numbers_def a b' c' d' e1 f)
  have ids: "ids_nonempty r"
    using b c d e2 by (auto simp: ids_nonempty_def list_all_iff)
  show ?thesis using nums ids by simp
qed

lemma visualStateSchema_js:
  assumes "list_all ok (state_numbers r)" "ids_nonempty r"
  shows "visualStateSchema ok (js_of_state r) = Some r"
proof -
  have n: "list_all ok (opt_numbers (VisualState.t r))"
      "list_all (\<lambda>x. list_all ok (node_numbers x)) (nodes r)"
      "list_all (\<lambda>x. list_all ok (loop_numbers x)) (loops r)"
      "list_all (\<lambda>x. list_all ok (lever_numbers x)) (levers r)"
      "list_all ok (case flows r of None \<Rightarrow> [] | Some fs \<Rightarrow> concat (map flow_numbers fs))"
      "list_all ok (case field r of None \<Rightarrow> [] | Some f \<Rightarrow> field_numbers f)"
    using assms(1) by (simp_all add: state_numbers_def list_all_concat)
  have i: "list_all (\<lambda>n. VisualNode.id n \<noteq> []) (nodes r)"
      "list_all (\<lambda>l. VisualLoop.id l \<noteq> []) (loops r)"
      "list_all (\<lambda>l. VisualLever.id l \<noteq> [] \<and> target l \<noteq> []) (levers r)"
      "case flows r of None \<Rightarrow> True | Some fs \<Rightarrow> list_all flow_ids_ok fs"
    using assms(2) by (simp_all add: ids_nonempty_def)
  have ns: "z_elements (nodeSchema ok) (map js_of_node (nodes r)) = Some (nodes r)"
    using n(2) i(1) by (intro z_elements_js) (auto simp: list_all_iff nodeSchema_js)
  have ls: "z_elements (loopSchema ok) (map js_of_loop (loops r)) = Some (loops r)"
    using n(3) i(2) by (intro z_elements_js) (auto simp: list_all_iff loopSchema_js)
  have lv: "z_elements (leverSchema ok) (map js_of_lever (levers r)) = Some (levers r)"
    using n(4) i(3) by (intro z_elements_js) (auto simp: list_all_iff leverSchema_js)
  have fl: "z_optional (z_array (flowSchema ok)) (js_opt (\<lambda>fs. JArr (map js_of_flow fs)) (flows r))
            = Some (flows r)"
  proof (cases "flows r")
    case None
    then show ?thesis by (simp add: z_optional_def js_opt_def)
  next
    case (Some fs)
    have "z_elements (flowSchema ok) (map js_of_flow fs) = Some fs"
      using n(5) i(4) Some
      by (intro z_elements_js) (auto simp: list_all_iff list_all_concat flowSchema_js)
    then show ?thesis using Some by (simp add: z_optional_def js_opt_def z_array_def)
  qed
  have fd: "z_optional (fieldSchema ok) (js_opt js_of_field (field r)) = Some (field r)"
  proof (cases "field r")
    case None
    then show ?thesis by (simp add: z_optional_def js_opt_def)
  next
    case (Some f)
    then have "fieldSchema ok (js_of_field f) = Some f" using n(6) by (simp add: fieldSchema_js)
    then show ?thesis using Some by (simp add: z_optional_def js_opt_def js_of_field_def)
  qed
  show ?thesis
    unfolding visualStateSchema_Some js_of_state_def
    using ns ls lv fl fd n(1)
    by (simp add: js_get_def z_array_def z_opt_number_js z_opt_string_js)
qed

lemma accepts_not_NaN: "z_number_accepts ver x \<Longrightarrow> x \<noteq> NaN"
  by (cases ver) auto

lemma accepts_Fin: "z_number_accepts ver (Fin x)"
  by (cases ver) auto

lemma accepts_finite: "isFinite x \<Longrightarrow> z_number_accepts ver x"
  by (cases x) (auto simp: accepts_Fin)

lemma accepts_clamp: "z_number_accepts ver x \<Longrightarrow> z_number_accepts ver (clamp x (Fin a) (Fin b))"
  by (cases ver; cases x) (auto simp: clamp_def Math_max_def Math_min_def)

lemma accepts_clamp01: "z_number_accepts ver x \<Longrightarrow> z_number_accepts ver (clamp01 x)"
  by (simp add: clamp01_def accepts_clamp)

lemma accepts_or: "z_number_accepts ver x \<Longrightarrow> z_number_accepts ver (js_or x (Fin c))"
  by (cases ver; cases x) (auto simp: js_or_def)

lemma accepts_max: "z_number_accepts ver x \<Longrightarrow> z_number_accepts ver (Math_max (Fin c) x)"
  by (cases ver; cases x) (auto simp: Math_max_def)

lemma clamp_idem:
  "a \<le> b \<Longrightarrow> clamp (clamp x (Fin a) (Fin b)) (Fin a) (Fin b) = clamp x (Fin a) (Fin b)"
  by (cases x) (auto simp: clamp_def Math_max_def Math_min_def)

lemma clamp01_idem: "clamp01 (clamp01 x) = clamp01 x"
  by (simp add: clamp01_def clamp_idem)

lemma js_or_idem: "js_or (js_or x (Fin c)) (Fin c) = js_or x (Fin c)"
  by (auto simp: js_or_def truthy_def)

lemma floor_idem:
  "0 \<le> c \<Longrightarrow> Math_max (Fin c) (js_or (Math_max (Fin c) (js_or x (Fin c))) (Fin c))
     = Math_max (Fin c) (js_or x (Fin c))"
  by (cases x) (auto simp: Math_max_def js_or_def truthy_def)

lemma js_or_finite: "isFinite x \<Longrightarrow> js_or x (Fin 0) = x"
  by (cases x) (auto simp: js_or_def truthy_def)

lemma clampVec3_idem: "clampVec3 (clampVec3 p) = clampVec3 p"
  by (cases p) (simp add: js_or_idem)

lemma clampVec3_accepts:
  "list_all (z_number_accepts ver) (vec3_numbers p) \<Longrightarrow>
   list_all (z_number_accepts ver) (vec3_numbers (clampVec3 p))"
  by (cases p) (simp add: accepts_or)

lemma clampVec3_finite: "list_all isFinite (vec3_numbers p) \<Longrightarrow> clampVec3 p = p"
  by (cases p) (simp add: js_or_finite)

lemma opt_clamp01_accepts:
  "list_all (z_number_accepts ver) (opt_numbers v) \<Longrightarrow>
   list_all (z_number_accepts ver) (opt_numbers (map_option clamp01 v))"
  by (cases v) (simp_all add: accepts_clamp01)

lemma opt_clamp01_idem: "map_option clamp01 (map_option clamp01 v) = map_option clamp01 v"
  by (cases v) (simp_all add: clamp01_idem)

lemma normalizeNode_idem: "normalizeNode (normalizeNode n) = normalizeNode n"
  by (cases "VisualNode.scale n")
     (simp_all add: normalizeNode_def clampVec3_idem clamp01_idem clamp_idem)

lemma normalizeLoop_idem: "normalizeLoop (normalizeLoop l) = normalizeLoop l"
  by (simp add: normalizeLoop_def clampVec3_idem clamp01_idem floor_idem opt_clamp01_idem)

lemma normalizeLever_idem: "normalizeLever (normalizeLever l) = normalizeLever l"
  by (simp add: normalizeLever_def clampVec3_idem clamp01_idem)

lemma normalizeFlow_idem: "normalizeFlow (normalizeFlow f) = normalizeFlow f"
  by (simp add: normalizeFlow_def floor_idem opt_clamp01_idem)

lemma normalizeField_idem: "normalizeField (normalizeField f) = normalizeField f"
  by (simp add: normalizeField_def clamp01_idem)

lemma normalizeState_idem: "normalizeState (normalizeState r) = normalizeState r"
  by (cases "flows r"; cases "field r")
     (simp_all add: normalizeState_def normalizeNode_idem normalizeLoop_idem normalizeLever_idem
        normalizeFlow_idem normalizeField_idem)

lemma normalizeNode_accepts:
  "list_all (z_number_accepts ver) (node_numbers n) \<Longrightarrow>
   list_all (z_number_accepts ver) (node_numbers (normalizeNode n))"
  using clampVec3_accepts[of ver "VisualNode.pos n"]
  by (cases "VisualNode.scale n")
     (simp_all add: node_numbers_def normalizeNode_def accepts_clamp01 accepts_clamp)

lemma normalizeLoop_accepts:
  "list_all (z_number_accepts ver) (loop_numbers l) \<Longrightarrow>
   list_all (z_number_accepts ver) (loop_numbers (normalizeLoop l))"
  using clampVec3_accepts[of ver "center l"] opt_clamp01_accepts[of ver "bottleneck l"]
    opt_clamp01_accepts[of ver "delay l"]
  by (simp add: loop_numbers_def normalizeLoop_def accepts_clamp01 accepts_max accepts_or)

lemma normalizeLever_accepts:
  "list_all (z_number_accepts ver) (lever_numbers l) \<Longrightarrow>
   list_all (z_number_accepts ver) (lever_numbers (normalizeLever l))"
  using clampVec3_accepts[of ver "VisualLever.pos l"]
  by (simp add: lever_numbers_def normalizeLever_def accepts_clamp01)

lemma normalizeFlow_accepts:
  "list_all (z_number_accepts ver) (flow_numbers f) \<Longrightarrow>
   list_all (z_number_accepts ver) (flow_numbers (normalizeFlow f))"
  using opt_clamp01_accepts[of ver "VisualFlow.intensity f"]
  by (simp add: flow_numbers_def normalizeFlow_def accepts_max accepts_or)

lemma normalizeField_accepts:
  "list_all (z_number_accepts ver) (field_numbers f) \<Longrightarrow>
   list_all (z_number_accepts ver) (field_numbers (normalizeField f))"
  by (simp add: field_numbers_def normalizeField_def accepts_clamp01)

lemma list_all_map_mono:
  "list_all P xs \<Longrightarrow> (\<And>x. P x \<Longrightarrow> Q (f x)) \<Longrightarrow> list_all Q (map f xs)"
  by (induction xs) auto

lemma list_all_concat_map:
  "list_all (\<lambda>x. list_all P (g x)) (map f xs) \<Longrightarrow> list_all P (concat (map g (map f xs)))"
  by (induction xs) auto

lemma normalizeState_accepts:
  assumes "list_all (z_number_accepts ver) (state_numbers r)"
  shows "list_all (z_number_accepts ver) (state_numbers (normalizeState r))"
proof -
  let ?A = "z_number_accepts ver"
  have n: "list_all ?A (opt_numbers (VisualState.t r))"
      "list_all (\<lambda>x. list_all ?A (node_numbers x)) (nodes r)"
      "list_all (\<lambda>x. list_all ?A (loop_numbers x)) (loops r)"
      "list_all (\<lambda>x. list_all ?A (lever_numbers x)) (levers r)"
      "list_all ?A (case flows r of None \<Rightarrow> [] | Some fs \<Rightarrow> concat (map flow_numbers fs))"
      "list_all ?A (case field r of None \<Rightarrow> [] | Some f \<Rightarrow> field_numbers f)"
    using assms by (simp_all add: state_numbers_def list_all_concat)
  have "list_all (\<lambda>x. list_all ?A (node_numbers x)) (map normalizeNode (nodes r))"
    using n(2) by (rule list_all_map_mono) (rule normalizeNode_accepts)
  then have a: "list_all ?A (concat (map node_numbers (map normalizeNode (nodes r))))"
    by (rule list_all_concat_map)
  have "list_all (\<lambda>x. list_all ?A (loop_numbers x)) (map normalizeLoop (loops r))"
    using n(3) by (rule list_all_map_mono) (rule normalizeLoop_accepts)
  then have b: "list_all ?A (concat (map loop_numbers (map normalizeLoop (loops r))))"
    by (rule list_all_concat_map)
  have "list_all (\<lambda>x. list_all ?A (lever_numbers x)) (map normalizeLever (levers r))"
    using n(4) by (rule list_all_map_mono) (rule normalizeLever_accepts)
  then have c: "list_all ?A (concat (map lever_numbers (map normalizeLever (levers r))))"
    by (rule list_all_concat_map)
  have d: "list_all ?A (case map_option (map normalizeFlow) (flows r) of None \<Rightarrow> []
                        | Some fs \<Rightarrow> concat (map flow_numbers fs))"
  proof (cases "flows r")
    case None
    then show ?thesis by simp
  next
    case (Some fs)
    then have "list_all (\<lambda>x. list_all ?A (flow_numbers x)) fs"
      using n(5) by (simp add: list_all_concat)
    then have "list_all (\<lambda>x. list_all ?A (flow_numbers x)) (map normalizeFlow fs)"
      by (rule list_all_map_mono) (rule normalizeFlow_accepts)
    then have "list_all ?A (concat (map flow_numbers (map normalizeFlow fs)))"
      by (rule list_all_concat_map)
    then show ?thesis using Some by simp
  qed
  have e: "list_all ?A (case map_option normalizeField (field r) of None \<Rightarrow> []
                        | Some f \<Rightarrow> field_numbers f)"
    using n(6) by (cases "field r") (simp_all add: normalizeField_accepts)
  show ?thesis using n(1) a b c d e by (simp add: state_numbers_def normalizeState_def)
qed

lemma normalizeState_ids: "ids_nonempty r \<Longrightarrow> ids_nonempty (normalizeState r)"
  by (cases "flows r")
     (auto simp: ids_nonempty_def normalizeState_def list_all_iff normalizeNode_def
        normalizeLoop_def normalizeLever_def normalizeFlow_def flow_ids_ok_def)

text \<open>
  Claim C6. \<open>parseVisualState\<close> is idempotent, under either version of the schema
  library: when it accepts an input and returns \<open>d\<close>, it accepts \<open>d\<close> (seen as an
  untyped value) and returns \<open>d\<close> again.
\<close>

theorem parseVisualState_idempotent:
  "parseVisualState (z_number_accepts ver) x = Inr d \<Longrightarrow>
   parseVisualState (z_number_accepts ver) (js_of_state d) = Inr d"
proof -
  assume p: "parseVisualState (z_number_accepts ver) x = Inr d"
  then obtain r where r: "visualStateSchema (z_number_accepts ver) x = Some r"
    and d: "d = normalizeState r"
    by (auto simp: parseVisualState_def split: option.splits)
  have "list_all (z_number_accepts ver) (state_numbers r) \<and> ids_nonempty r"
    using visualStateSchema_accepted[OF r] .
  then have "list_all (z_number_accepts ver) (state_numbers d)" "ids_nonempty d"
    using d normalizeState_accepts normalizeState_ids by auto
  then have "visualStateSchema (z_number_accepts ver) (js_of_state d) = Some d"
    by (rule visualStateSchema_js)
  then show ?thesis by (simp add: parseVisualState_def d normalizeState_idem)
qed

lemma sample_schema:
  "ok (Fin 1) \<Longrightarrow> ok (Fin 2) \<Longrightarrow> ok (Fin 3) \<Longrightarrow>
   visualStateSchema ok (sample_payload x i)
     = (if ok x \<and> ok i then Some (sample_state x i) else None)"
  by (simp add: visualStateSchema_def sample_payload_def sample_node_js_def sample_state_def
      sample_node_def z_object_def js_get_def z_optional_def z_array_def nodeSchema_def
      z_string_min1_def z_string_def z_enum_shape_def vec3Schema_def z_number_def)

lemma sample_normalize:
  "normalizeState (sample_state x i) = sample_state (js_or x (Fin 0)) (clamp01 i)"
  by (simp add: normalizeState_def sample_state_def sample_node_def normalizeNode_def
      js_or_def truthy_def clamp01_def clamp_Fin)

lemma sample_parse:
  "ok (Fin 1) \<Longrightarrow> ok (Fin 2) \<Longrightarrow> ok (Fin 3) \<Longrightarrow>
   parseVisualState ok (sample_payload x i)
     = (if ok x \<and> ok i then Inr (sample_state (js_or x (Fin 0)) (clamp01 i)) else Inl SchemaError)"
  by (simp add: parseVisualState_def sample_schema sample_normalize)

lemma sample_numbers: "state_numbers (sample_state x i) = [x, Fin 2, Fin 3, i, Fin 1]"
  by (simp add: state_numbers_def sample_state_def sample_node_def node_numbers_def)

theorem parseVisualState_idempotent_witness:
  "parseVisualState (z_number_accepts Zod4) (sample_payload (Fin 1) (Fin 7))
     = Inr (sample_state (Fin 1) (Fin 1))
   \<and> parseVisualState (z_number_accepts Zod4) (js_of_state (sample_state (Fin 1) (Fin 1)))
     = Inr (sample_state (Fin 1) (Fin 1))"
proof -
  have a: "parseVisualState (z_number_accepts Zod4) (sample_payload (Fin 1) (Fin 7))
     = Inr (sample_state (Fin 1) (Fin 1))"
    by (simp add: sample_parse js_or_def truthy_def clamp01_def clamp_Fin)
  show ?thesis using a parseVisualState_idempotent[OF a] by simp
qed

text \<open>
  Claim C3 as stated fails. A payload of the right shape whose node intensity is NaN is
  rejected under both versions of the schema library. A first coordinate \<open>+Infinity\<close>
  is rejected under version 4; under version 3 it is accepted and the output coordinate is
  still \<open>+Infinity\<close>, since \<open>clampVec3\<close> leaves it as it is.
\<close>

theorem parseVisualState_rejects_NaN_counterexample:
  "visualStateSchema (\<lambda>n. True) (sample_payload (Fin 1) NaN) = Some (sample_state (Fin 1) NaN)
   \<and> parseVisualState (z_number_accepts Zod3) (sample_payload (Fin 1) NaN) = Inl SchemaError
   \<and> parseVisualState (z_number_accepts Zod4) (sample_payload (Fin 1) NaN) = Inl SchemaError
   \<and> parseVisualState (z_number_accepts Zod4) (sample_payload PosInf (Fin 7)) = Inl SchemaError
   \<and> parseVisualState (z_number_accepts Zod3) (sample_payload PosInf (Fin 7))
       = Inr (sample_state PosInf (Fin 1))
   \<and> state_vectors (sample_state PosInf (Fin 1)) = [(PosInf, Fin 2, Fin 3)]
   \<and> clampVec3 (PosInf, Fin 2, Fin 3) = (PosInf, Fin 2, Fin 3)"
  by (simp add: sample_parse sample_schema js_or_def truthy_def clamp01_def clamp_Fin
      state_vectors_def sample_state_def sample_node_def)

lemma list_all_weaken: "list_all P xs \<Longrightarrow> (\<And>x. P x \<Longrightarrow> Q x) \<Longrightarrow> list_all Q xs"
  by (induction xs) auto

lemma state_vectors_normalize:
  "state_vectors (normalizeState r) = map clampVec3 (state_vectors r)"
  by (simp add: state_vectors_def normalizeState_def normalizeNode_def normalizeLoop_def
      normalizeLever_def comp_def)

lemma state_vectors_finite:
  assumes "list_all P (state_numbers r)"
  shows "list_all (\<lambda>v. list_all P (vec3_numbers v)) (state_vectors r)"
proof -
  have n: "list_all (\<lambda>x. list_all P (node_numbers x)) (nodes r)"
      "list_all (\<lambda>x. list_all P (loop_numbers x)) (loops r)"
      "list_all (\<lambda>x. list_all P (lever_numbers x)) (levers r)"
    using assms by (simp_all add: state_numbers_def list_all_concat)
  have a: "list_all (\<lambda>v. list_all P (vec3_numbers v)) (map VisualNode.pos (nodes r))"
    using n(1) by (rule list_all_map_mono) (simp add: node_numbers_def)
  have b: "list_all (\<lambda>v. list_all P (vec3_numbers v)) (map center (loops r))"
    using n(2) by (rule list_all_map_mono) (simp add: loop_numbers_def)
  have c: "list_all (\<lambda>v. list_all P (vec3_numbers v)) (map VisualLever.pos (levers r))"
    using n(3) by (rule list_all_map_mono) (simp add: lever_numbers_def)
  show ?thesis using a b c by (simp add: state_vectors_def)
qed

lemma map_clampVec3_finite:
  "list_all (\<lambda>v. list_all isFinite (vec3_numbers v)) vs \<Longrightarrow> map clampVec3 vs = vs"
  by (induction vs) (auto simp: clampVec3_finite)

text \<open>
  Claim C3, amended. A payload is of the right shape when the schema accepts it with
  every number let through, reading the state \<open>r\<close>. If all number-valued fields of
  \<open>r\<close> are finite, validation succeeds under either library version with the normalized
  \<open>r\<close>, whose position and center vectors are those of \<open>r\<close> and finite. If some
  number-valued field of \<open>r\<close> is one that \<^verbatim>\<open>z.number()\<close> does not accept (NaN; under
  version 4 also an infinity), validation fails with a schema error.
\<close>

theorem parseVisualState_accepts_finite:
  "(visualStateSchema (\<lambda>n. True) x = Some r \<and> list_all isFinite (state_numbers r) \<longrightarrow>
        parseVisualState (z_number_accepts ver) x = Inr (normalizeState r)
      \<and> state_vectors (normalizeState r) = state_vectors r
      \<and> list_all (\<lambda>v. list_all isFinite (vec3_numbers v)) (state_vectors (normalizeState r)))
   \<and> (visualStateSchema (\<lambda>n. True) x = Some r
        \<and> \<not> list_all (z_number_accepts ver) (state_numbers r) \<longrightarrow>
        parseVisualState (z_number_accepts ver) x = Inl SchemaError)"
proof -
  let ?A = "z_number_accepts ver"
  have p1: "visualStateSchema (\<lambda>n. True) x = Some r \<and> list_all isFinite (state_numbers r) \<longrightarrow>
        parseVisualState ?A x = Inr (normalizeState r)
      \<and> state_vectors (normalizeState r) = state_vectors r
      \<and> list_all (\<lambda>v. list_all isFinite (vec3_numbers v)) (state_vectors (normalizeState r))"
  proof
    assume h: "visualStateSchema (\<lambda>n. True) x = Some r \<and> list_all isFinite (state_numbers r)"
    then have acc: "list_all ?A (state_numbers r)"
      using list_all_weaken[of isFinite "state_numbers r" ?A] accepts_finite by blast
    have "visualStateSchema ?A x = Some r"
      using visualStateSchema_transfer[of "\<lambda>n. True" x r ?A] h acc by blast
    then have a: "parseVisualState ?A x = Inr (normalizeState r)"
      by (simp add: parseVisualState_def)
    have fin: "list_all (\<lambda>v. list_all isFinite (vec3_numbers v)) (state_vectors r)"
      using h state_vectors_finite by blast
    have b: "state_vectors (normalizeState r) = state_vectors r"
      using map_clampVec3_finite[OF fin] by (simp add: state_vectors_normalize)
    show "parseVisualState ?A x = Inr (normalizeState r)
      \<and> state_vectors (normalizeState r) = state_vectors r
      \<and> list_all (\<lambda>v. list_all isFinite (vec3_numbers v)) (state_vectors (normalizeState r))"
      using a b fin by simp
  qed
  have p2: "visualStateSchema (\<lambda>n. True) x = Some r \<and> \<not> list_all ?A (state_numbers r) \<longrightarrow>
        parseVisualState ?A x = Inl SchemaError"
  proof
    assume h: "visualStateSchema (\<lambda>n. True) x = Some r \<and> \<not> list_all ?A (state_numbers r)"
    have "visualStateSchema ?A x = None"
    proof (cases "visualStateSchema ?A x")
      case None
      then show ?thesis .
    next
      case (Some r')
      have t: "list_all (\<lambda>n. True) (state_numbers r')" by (simp add: list_all_iff)
      have "visualStateSchema (\<lambda>n. True) x = Some r'"
        using visualStateSchema_transfer[OF Some t] .
      then have "r' = r" using h by simp
      then have "list_all ?A (state_numbers r)" using visualStateSchema_accepted[OF Some] by simp
      then show ?thesis using h by simp
    qed
    then show "parseVisualState ?A x = Inl SchemaError" by (simp add: parseVisualState_def)
  qed
  show ?thesis using p1 p2 by blast
qed

theorem parseVisualState_accepts_finite_witness:
  "visualStateSchema (\<lambda>n. True) (sample_payload (Fin 1000) (Fin 7)) = Some (sample_state (Fin 1000) (Fin 7))
   \<and> list_all isFinite (state_numbers (sample_state (Fin 1000) (Fin 7)))
   \<and> parseVisualState (z_number_accepts Zod3) (sample_payload (Fin 1000) (Fin 7))
       = Inr (sample_state (Fin 1000) (Fin 1))
   \<and> state_vectors (sample_state (Fin 1000) (Fin 1)) = [(Fin 1000, Fin 2, Fin 3)]
   \<and> visualStateSchema (\<lambda>n. True) (sample_payload (Fin 1) NaN) = Some (sample_state (Fin 1) NaN)
   \<and> \<not> list_all (z_number_accepts Zod4) (state_numbers (sample_state (Fin 1) NaN))
   \<and> parseVisualState (z_number_accepts Zod4) (sample_payload (Fin 1) NaN) = Inl SchemaError"
proof -
  have a: "visualStateSchema (\<lambda>n. True) (sample_payload (Fin 1000) (Fin 7))
           = Some (sample_state (Fin 1000) (Fin 7))"
    by (simp add: sample_schema)
  have b: "list_all isFinite (state_numbers (sample_state (Fin 1000) (Fin 7)))"
    by (simp add: sample_numbers)
  have c: "normalizeState (sample_state (Fin 1000) (Fin 7)) = sample_state (Fin 1000) (Fin 1)"
    by (simp add: sample_normalize js_or_def truthy_def clamp01_def clamp_Fin)
  have d: "state_vectors (sample_state (Fin 1000) (Fin 1)) = [(Fin 1000, Fin 2, Fin 3)]"
    by (simp add: state_vectors_def sample_state_def sample_node_def)
  have e: "visualStateSchema (\<lambda>n. True) (sample_payload (Fin 1) NaN) = Some (sample_state (Fin 1) NaN)"
    by (simp add: sample_schema)
  have f: "\<not> list_all (z_number_accepts Zod4) (state_numbers (sample_state (Fin 1) NaN))"
    by (simp add: sample_numbers)
  have g: "parseVisualState (z_number_accepts Zod3) (sample_payload (Fin 1000) (Fin 7))
       = Inr (sample_state (Fin 1000) (Fin 1))"
    using a b c
      parseVisualState_accepts_finite[of "sample_payload (Fin 1000) (Fin 7)"
        "sample_state (Fin 1000) (Fin 7)" Zod3]
    by simp
  have h: "parseVisualState (z_number_accepts Zod4) (sample_payload (Fin 1) NaN) = Inl SchemaError"
    using e f
      parseVisualState_accepts_finite[of "sample_payload (Fin 1) NaN" "sample_state (Fin 1) NaN" Zod4]
    by blast
  show ?thesis using a b d e f g h by blast
qed

section \<open>Further properties\<close>

text \<open>
  An episode that \<open>getEpisode\<close> returns has no NaN frame time and no NaN
  duration: \<open>assertNumber\<close> rejects NaN.
\<close>

theorem getEpisode_frames_not_NaN:
  "getEpisode response = Inr data \<Longrightarrow>
     list_all (\<lambda>f. t f \<noteq> NaN) (ReplayEpisode.frames data) \<and> ReplayEpisode.duration data \<noteq> NaN"
  using getEpisode_not_NaN[of response data] by (simp add: list_all_iff)

theorem getEpisode_frames_not_NaN_witness:
  "getEpisode (sample_store ''A'') = Inr (sample_episode ''A'' (Fin 0) [])
   \<and> ReplayEpisode.duration (sample_episode ''A'' (Fin 0) []) \<noteq> NaN"
  using getEpisode_frames_not_NaN[OF validateEpisode_sample, of "''A''"] validateEpisode_sample[of "''A''"]
  by simp

lemma clamp_bounds:
  assumes "js_le lo hi" "q \<noteq> NaN"
  shows "js_le lo (clamp q lo hi) \<and> js_le (clamp q lo hi) hi"
  using assms by (cases lo; cases hi; cases q) (auto simp: clamp_def Math_max_def Math_min_def js_le_def)

lemma clamp_inside:
  assumes "js_le lo q" "js_le q hi"
  shows "clamp q lo hi = q"
  using assms by (cases lo; cases hi; cases q) (auto simp: clamp_def Math_max_def Math_min_def js_le_def)

text \<open>
  On a clock whose duration is \<^verbatim>\<open>>= 0\<close>, \<open>scrub q\<close> for a number \<open>q\<close> sets
  \<open>currentTime\<close> to \<open>q\<close> clamped into \<open>[0, duration]\<close>, sets \<open>currentIndex\<close> to the
  frame index at that time, and leaves the play state as it is.
\<close>

theorem scrub_clamps:
  "js_le (Fin 0) (Player.duration s) \<Longrightarrow> q \<noteq> NaN \<Longrightarrow>
     js_le (Fin 0) (currentTime (scrub q s))
   \<and> js_le (currentTime (scrub q s)) (Player.duration s)
   \<and> (js_le (Fin 0) q \<and> js_le q (Player.duration s) \<longrightarrow> currentTime (scrub q s) = q)
   \<and> currentIndex (scrub q s)
       = Fin (real (findFrameIndex (sortedFrames (Player.frames s)) (currentTime (scrub q s))))
   \<and> isPlaying (scrub q s) = isPlaying s"
  using clamp_bounds[of "Fin 0" "Player.duration s" q] clamp_inside[of "Fin 0" q "Player.duration s"]
  by (simp add: scrub_def Let_def)

theorem scrub_clamps_witness:
  "currentTime (scrub (Fin (- 5)) (useReplayPlayer None (Fin 10))) = Fin 0
   \<and> currentTime (scrub (Fin 999) (useReplayPlayer None (Fin 10))) = Fin 10
   \<and> currentIndex (scrub (Fin 3) (useReplayPlayer (Some [fr 5, fr 0, fr 2]) (Fin 5))) = Fin 1
   \<and> currentIndex (scrub (Fin 5) (useReplayPlayer (Some [fr 5, fr 0, fr 2]) (Fin 5))) = Fin 2
   \<and> js_le (currentTime (scrub (Fin 999) (useReplayPlayer None (Fin 10)))) (Fin 10)"
proof -
  have a: "currentTime (scrub (Fin (- 5)) (useReplayPlayer None (Fin 10))) = Fin 0"
    "currentTime (scrub (Fin 999) (useReplayPlayer None (Fin 10))) = Fin 10"
    by (simp_all add: scrub_def useReplayPlayer_def clamp_Fin Let_def)
  have sf: "sortedFrames (Some [fr 5, fr 0, fr 2]) = [fr 0, fr 2, fr 5]"
    by (simp add: sortedFrames_def js_sort_def by_t_def js_sub_def js_gt_def fr_def)
  have idx: "findFrameIndex [fr 0, fr 2, fr 5] (Fin 3) = 1" "findFrameIndex [fr 0, fr 2, fr 5] (Fin 5) = 2"
    by (simp_all add: findFrameIndex_def fr_def js_le_def)
  have b: "currentIndex (scrub (Fin 3) (useReplayPlayer (Some [fr 5, fr 0, fr 2]) (Fin 5))) = Fin 1"
    "currentIndex (scrub (Fin 5) (useReplayPlayer (Some [fr 5, fr 0, fr 2]) (Fin 5))) = Fin 2"
    by (simp_all add: scrub_def useReplayPlayer_def clamp_Fin Let_def sf idx)
  have h: "js_le (Fin 0) (Player.duration (useReplayPlayer None (Fin 10)))" "Fin 999 \<noteq> NaN"
    by (simp_all add: useReplayPlayer_def js_le_def)
  show ?thesis using a b scrub_clamps[OF h] by (simp add: useReplayPlayer_def)
qed

text \<open>
  \<open>clamp01\<close> maps every number but NaN into \<open>[0, 1]\<close> and leaves a value
  already there unchanged; in validated data every node intensity and opacity lies in
  \<open>[0, 1]\<close>.
\<close>

theorem clamp01_range:
  "(x \<noteq> NaN \<longrightarrow> js_le (Fin 0) (clamp01 x) \<and> js_le (clamp01 x) (Fin 1))
   \<and> (js_le (Fin 0) x \<and> js_le x (Fin 1) \<longrightarrow> clamp01 x = x)
   \<and> (parseVisualState (z_number_accepts ver) v = Inr d \<longrightarrow>
        list_all (\<lambda>n. js_le (Fin 0) (VisualNode.intensity n) \<and> js_le (VisualNode.intensity n) (Fin 1)
                      \<and> js_le (Fin 0) (opacity n) \<and> js_le (opacity n) (Fin 1)) (nodes d))"
proof -
  have a: "x \<noteq> NaN \<longrightarrow> js_le (Fin 0) (clamp01 x) \<and> js_le (clamp01 x) (Fin 1)"
    using clamp_bounds[of "Fin 0" "Fin 1" x] by (simp add: clamp01_def js_le_def)
  have b: "js_le (Fin 0) x \<and> js_le x (Fin 1) \<longrightarrow> clamp01 x = x"
    using clamp_inside[of "Fin 0" x "Fin 1"] by (simp add: clamp01_def)
  have c: "parseVisualState (z_number_accepts ver) v = Inr d \<longrightarrow>
        list_all (\<lambda>n. js_le (Fin 0) (VisualNode.intensity n) \<and> js_le (VisualNode.intensity n) (Fin 1)
                      \<and> js_le (Fin 0) (opacity n) \<and> js_le (opacity n) (Fin 1)) (nodes d)"
  proof
    assume p: "parseVisualState (z_number_accepts ver) v = Inr d"
    then obtain r where r: "visualStateSchema (z_number_accepts ver) v = Some r"
      and d: "d = normalizeState r"
      by (auto simp: parseVisualState_def split: option.splits)
    have "list_all (z_number_accepts ver) (state_numbers r)"
      using visualStateSchema_accepted[OF r] by simp
    then have "list_all (\<lambda>x. list_all (z_number_accepts ver) (node_numbers x)) (nodes r)"
      by (simp add: state_numbers_def list_all_concat)
    then have "list_all (\<lambda>n. VisualNode.intensity n \<noteq> NaN \<and> opacity n \<noteq> NaN) (nodes r)"
      by (rule list_all_weaken) (auto simp: node_numbers_def dest: accepts_not_NaN)
    then have "list_all (\<lambda>n. js_le (Fin 0) (VisualNode.intensity n) \<and> js_le (VisualNode.intensity n) (Fin 1)
                      \<and> js_le (Fin 0) (opacity n) \<and> js_le (opacity n) (Fin 1))
                 (map normalizeNode (nodes r))"
    proof (rule list_all_map_mono)
      fix n :: VisualNode assume "VisualNode.intensity n \<noteq> NaN \<and> opacity n \<noteq> NaN"
      then show "js_le (Fin 0) (VisualNode.intensity (normalizeNode n))
          \<and> js_le (VisualNode.intensity (normalizeNode n)) (Fin 1)
          \<and> js_le (Fin 0) (opacity (normalizeNode n)) \<and> js_le (opacity (normalizeNode n)) (Fin 1)"
        using clamp_bounds[of "Fin 0" "Fin 1"] by (simp add: normalizeNode_def clamp01_def js_le_def)
    qed
    then show "list_all (\<lambda>n. js_le (Fin 0) (VisualNode.intensity n) \<and> js_le (VisualNode.intensity n) (Fin 1)
                      \<and> js_le (Fin 0) (opacity n) \<and> js_le (opacity n) (Fin 1)) (nodes d)"
      by (simp add: d normalizeState_def)
  qed
  show ?thesis using a b c by blast
qed

theorem clamp01_range_witness:
  "clamp01 (Fin 7) = Fin 1 \<and> clamp01 (Fin (- 3)) = Fin 0 \<and> clamp01 (Fin (1 / 2)) = Fin (1 / 2)
   \<and> js_le (clamp01 PosInf) (Fin 1)"
proof -
  have a: "clamp01 (Fin 7) = Fin 1 \<and> clamp01 (Fin (- 3)) = Fin 0"
    by (simp add: clamp01_def clamp_Fin)
  have h: "js_le (Fin 0) (Fin (1 / 2)) \<and> js_le (Fin (1 / 2)) (Fin 1)" by (simp add: js_le_def)
  have n: "PosInf \<noteq> NaN" by simp
  show ?thesis
    using a h n clamp01_range[of "Fin (1 / 2)" Zod3 JNull undefined] clamp01_range[of PosInf Zod3 JNull undefined]
    by blast
qed

end
